theory Spec2Isabelle
  imports Main "HOL-Library.Word"
begin

unbundle bit_operations_syntax

section \<open>The write set of the redo-log STM (WriteSet.hpp)\<close>

text \<open>
  The model follows \<^verbatim>\<open>Project1/submission/RingSTM/tm/WriteSet.hpp\<close> as it is compiled
  in the word-logging configuration, without \<^verbatim>\<open>STM_PROTECT_STACK\<close> and without
  \<^verbatim>\<open>STM_ABORT_ON_THROW\<close>.

  Addresses, logged values and the version counter are 64-bit words (\<^verbatim>\<open>void**\<close> cast
  to \<^verbatim>\<open>unsigned long long\<close>, \<^verbatim>\<open>uint64_t\<close>, \<^verbatim>\<open>size_t\<close>), so the hash product and
  the version increment wrap around as in the code. Table lengths and positions
  (\<^verbatim>\<open>shift\<close>, \<^verbatim>\<open>ilength\<close>, \<^verbatim>\<open>capacity\<close>, \<^verbatim>\<open>lsize\<close>, \<^verbatim>\<open>index_t::index\<close>, the probe
  position) are natural numbers: they are bounded by the lengths of the two allocated
  arrays. Memory is a function from an address to the 64-bit word stored there (an
  address is an opaque handle of one word; distinct handles name disjoint words).

  A result \<open>None\<close> of an operation means that the C++ has no defined result there: a
  probe loop that never exits, or an access outside an array.
\<close>

subsection \<open>Log entries\<close>

record WriteSetEntry =
  addr :: "64 word"
  val :: "64 word"

type_synonym memory = "64 word \<Rightarrow> 64 word"

text \<open>\<^verbatim>\<open>WordLoggingWriteSetEntry::update\<close>: \<^verbatim>\<open>val = rhs.val\<close>.\<close>

definition update :: "WriteSetEntry \<Rightarrow> WriteSetEntry \<Rightarrow> WriteSetEntry" where
  "update e rhs = e\<lparr>val := val rhs\<rparr>"

text \<open>\<^verbatim>\<open>WordLoggingWriteSetEntry::writeback\<close>: \<^verbatim>\<open>*((uint64_t*)addr) = val\<close>.\<close>

definition entry_writeback :: "WriteSetEntry \<Rightarrow> memory \<Rightarrow> memory" where
  "entry_writeback e m = m(addr e := val e)"

text \<open>\<^verbatim>\<open>WordLoggingWriteSetEntry::validate\<close>: \<^verbatim>\<open>*((uint64_t*)addr) == val\<close>.\<close>

definition entry_validate :: "WriteSetEntry \<Rightarrow> memory \<Rightarrow> bool" where
  "entry_validate e m = (m (addr e) = val e)"

subsection \<open>The index and the write set\<close>

record index_t =
  version :: "64 word"
  address :: "64 word"
  index :: nat

text \<open>The constructor \<^verbatim>\<open>index_t()\<close>: version 0, address NULL, index 0.\<close>

definition index_t0 :: index_t where
  "index_t0 = \<lparr>version = 0, address = 0, index = 0\<rparr>"

record WriteSet =
  ws_index :: "index_t list"
  shift :: nat
  ilength :: nat
  ws_version :: "64 word"
  ws_list :: "WriteSetEntry list"
  capacity :: nat
  lsize :: nat

subsection \<open>The hash function\<close>

text \<open>
  \<^verbatim>\<open>r = ((unsigned long long)key) * s; return (size_t)((r & 0xFFFFFFFF) >> shift);\<close>
  with \<^verbatim>\<open>s = 2654435769ull\<close>.
\<close>

definition hash :: "64 word \<Rightarrow> nat \<Rightarrow> nat" where
  "hash key sh = unat (drop_bit sh ((key * 2654435769) AND 0xFFFFFFFF))"

text \<open>
  The hash as the specification words it, for comparison: the high bits of the full
  64-bit product, shifted down to the \<open>32 - sh\<close> bits of a table of \<open>2 ^ (32 - sh)\<close>
  slots.
\<close>

definition hash_high_bits_of_product :: "64 word \<Rightarrow> nat \<Rightarrow> nat" where
  "hash_high_bits_of_product key sh = unat (drop_bit (32 + sh) (key * 2654435769))"

subsection \<open>Probing\<close>

text \<open>
  The loop shared by \<^verbatim>\<open>find\<close> and \<^verbatim>\<open>insert\<close>:
  \<^verbatim>\<open>while (index[h].version == version) {
       if (index[h].address != log.addr) { h = (h + 1) % ilength; continue; }
       ... return true; }\<close>
  The result \<open>(True, h)\<close> is the exit through the \<^verbatim>\<open>return true\<close> branch at slot
  \<open>h\<close>, and \<open>(False, h)\<close> the exit of the loop at the slot \<open>h\<close> whose version differs.
\<close>

partial_function (option) probe ::
  "index_t list \<Rightarrow> nat \<Rightarrow> 64 word \<Rightarrow> 64 word \<Rightarrow> nat \<Rightarrow> (bool \<times> nat) option" where
  "probe idx n ver key h =
     (if h < length idx then
        (if version (idx ! h) = ver then
           (if address (idx ! h) \<noteq> key then
              (if n = 0 then None else probe idx n ver key ((h + 1) mod n))
            else Some (True, h))
         else Some (False, h))
      else None)"

declare probe.simps [code]

subsection \<open>find\<close>

text \<open>
  \<^verbatim>\<open>log\<close> is an in/out parameter: on success \<^verbatim>\<open>log.val = list[index[h].index].val\<close>.
  The result is the returned flag with the log as \<^verbatim>\<open>find\<close> leaves it.
\<close>

definition find_ws :: "WriteSet \<Rightarrow> WriteSetEntry \<Rightarrow> (bool \<times> WriteSetEntry) option" where
  "find_ws s log =
     (case probe (ws_index s) (ilength s) (ws_version s) (addr log)
             (hash (addr log) (shift s)) of
        None \<Rightarrow> None
      | Some (found, h) \<Rightarrow>
          if found then
            (let i = index (ws_index s ! h) in
             if i < length (ws_list s)
             then Some (True, log\<lparr>val := val (ws_list s ! i)\<rparr>)
             else None)
          else Some (False, log))"

subsection \<open>writeback and validate\<close>

text \<open>Both iterate from \<^verbatim>\<open>begin() = list\<close> to \<^verbatim>\<open>end() = list + lsize\<close>.\<close>

fun writeback_loop :: "WriteSetEntry list \<Rightarrow> memory \<Rightarrow> memory" where
  "writeback_loop [] m = m"
| "writeback_loop (e # es) m = writeback_loop es (entry_writeback e m)"

definition writeback :: "WriteSet \<Rightarrow> memory \<Rightarrow> memory" where
  "writeback s m = writeback_loop (take (lsize s) (ws_list s)) m"

fun validate_loop :: "WriteSetEntry list \<Rightarrow> memory \<Rightarrow> bool" where
  "validate_loop [] m = True"
| "validate_loop (e # es) m = (if \<not> entry_validate e m then False else validate_loop es m)"

definition validate :: "WriteSet \<Rightarrow> memory \<Rightarrow> bool" where
  "validate s m = validate_loop (take (lsize s) (ws_list s)) m"

text \<open>
  The sequence of stores \<^verbatim>\<open>writeback\<close> performs, in the order it performs them.
\<close>

definition writes :: "WriteSet \<Rightarrow> (64 word \<times> 64 word) list" where
  "writes s = map (\<lambda>e. (addr e, val e)) (take (lsize s) (ws_list s))"

subsection \<open>resize, rebuild and reset_internal\<close>

text \<open>
  Modelled from the spec: \<^verbatim>\<open>WriteSet::resize\<close> is declared in the header and defined
  elsewhere. The entry list "grows by doubling when full; reallocation preserves
  existing order and contents exactly". The new half of the array is not read before
  \<^verbatim>\<open>insert\<close> writes it; it is filled with zero entries here.
\<close>

definition resize :: "WriteSet \<Rightarrow> WriteSet" where
  "resize s =
     s\<lparr>ws_list := ws_list s @ replicate (capacity s) \<lparr>addr = 0, val = 0\<rparr>,
       capacity := 2 * capacity s\<rparr>"

text \<open>
  The first slot at or after \<open>h\<close>, cyclically, that is not live; at most \<open>fuel\<close> slots
  are looked at.
\<close>

fun free_slot :: "index_t list \<Rightarrow> 64 word \<Rightarrow> nat \<Rightarrow> nat \<Rightarrow> nat option" where
  "free_slot idx ver h 0 = None"
| "free_slot idx ver h (Suc fuel) =
     (if version (idx ! h) \<noteq> ver then Some h
      else free_slot idx ver ((h + 1) mod length idx) fuel)"

text \<open>
  Entry \<open>i\<close> of the list gets the first free slot of its probe sequence. A table
  with no free slot is left as it is; \<open>rebuild\<close> never meets one, its fresh table
  having more slots than the list has entries (lemma \<open>rebuilding_step\<close>).
\<close>

definition reinsert :: "nat \<Rightarrow> WriteSet \<Rightarrow> WriteSet" where
  "reinsert i s =
     (case free_slot (ws_index s) (ws_version s)
             (hash (addr (ws_list s ! i)) (shift s)) (length (ws_index s)) of
        None \<Rightarrow> s
      | Some h \<Rightarrow>
          s\<lparr>ws_index := (ws_index s)
              [h := \<lparr>version = ws_version s, address = addr (ws_list s ! i), index = i\<rparr>]\<rparr>)"

text \<open>
  Modelled from the spec: \<^verbatim>\<open>WriteSet::rebuild\<close> (with \<^verbatim>\<open>doubleIndexLength\<close>) is
  declared in the header and defined elsewhere. "Double capacity, allocate a fresh
  table, reset the version baseline to 1, and reinsert every currently-live entry by
  recomputing its hash against the new capacity/shift." The capacity of the index is
  \<open>2 ^ (32 - shift)\<close>, so doubling it takes one from the shift. The live entries are
  the entries of the list in use, taken in insertion order: the spec's live count,
  whose triple is compared with the capacity, is \<^verbatim>\<open>lsize\<close> in \<^verbatim>\<open>insert\<close>, and its
  entry list has "size = number of live entries". A slot of the fresh table is
  \<^verbatim>\<open>index_t()\<close>.
\<close>

definition rebuild :: "WriteSet \<Rightarrow> WriteSet" where
  "rebuild s =
     fold reinsert [0 ..< lsize s]
       (s\<lparr>ws_index := replicate (2 * ilength s) index_t0,
          shift := shift s - 1,
          ilength := 2 * ilength s,
          ws_version := 1\<rparr>)"

text \<open>
  Modelled from the spec: \<^verbatim>\<open>WriteSet::reset_internal\<close> is declared in the header and
  defined elsewhere. It is the "full physical clear" of the index on version-counter
  overflow: every slot is \<^verbatim>\<open>index_t()\<close> again, and the version is back at the baseline
  1 of a fresh table.
\<close>

definition reset_internal :: "WriteSet \<Rightarrow> WriteSet" where
  "reset_internal s =
     s\<lparr>ws_index := replicate (length (ws_index s)) index_t0, ws_version := 1\<rparr>"

subsection \<open>insert\<close>

text \<open>
  After the probe: at a live slot holding the address, \<^verbatim>\<open>list[index[h].index].update(log)\<close>
  and \<^verbatim>\<open>return true\<close>; at a slot that is not live, \<^verbatim>\<open>list[lsize] = log\<close>, the three
  fields of \<^verbatim>\<open>index[h]\<close> are set, \<^verbatim>\<open>lsize += 1\<close>, then \<^verbatim>\<open>resize()\<close> if
  \<^verbatim>\<open>lsize == capacity\<close>, then \<^verbatim>\<open>rebuild()\<close> if \<^verbatim>\<open>lsize * 3 >= ilength\<close>, and
  \<^verbatim>\<open>return false\<close>.
\<close>

definition insert_ws :: "WriteSet \<Rightarrow> WriteSetEntry \<Rightarrow> (bool \<times> WriteSet) option" where
  "insert_ws s log =
     (case probe (ws_index s) (ilength s) (ws_version s) (addr log)
             (hash (addr log) (shift s)) of
        None \<Rightarrow> None
      | Some (found, h) \<Rightarrow>
          if found then
            (let i = index (ws_index s ! h) in
             if i < length (ws_list s)
             then Some (True, s\<lparr>ws_list := (ws_list s)[i := update (ws_list s ! i) log]\<rparr>)
             else None)
          else if lsize s < length (ws_list s) then
            (let s1 = s\<lparr>ws_list := (ws_list s)[lsize s := log]\<rparr>;
                 s2 = s1\<lparr>ws_index := (ws_index s1)
                        [h := (ws_index s1 ! h)\<lparr>address := addr log,
                                                version := ws_version s1,
                                                index := lsize s1\<rparr>]\<rparr>;
                 s3 = s2\<lparr>lsize := lsize s2 + 1\<rparr>;
                 s4 = (if lsize s3 = capacity s3 then resize s3 else s3);
                 s5 = (if lsize s4 * 3 \<ge> ilength s4 then rebuild s4 else s4)
             in Some (False, s5))
          else None)"

subsection \<open>remove\<close>

text \<open>
  \<^verbatim>\<open>while (index[h].version == version) {
       if (index[h].address != log.addr) { h = (h + 1) % ilength; continue; }
       index[h].version--; }\<close>
  After the decrement the loop tests the same slot again.
\<close>

partial_function (option) remove_loop ::
  "index_t list \<Rightarrow> nat \<Rightarrow> 64 word \<Rightarrow> 64 word \<Rightarrow> nat \<Rightarrow> index_t list option" where
  "remove_loop idx n ver key h =
     (if h < length idx then
        (if version (idx ! h) = ver then
           (if address (idx ! h) \<noteq> key then
              (if n = 0 then None else remove_loop idx n ver key ((h + 1) mod n))
            else remove_loop (idx[h := (idx ! h)\<lparr>version := version (idx ! h) - 1\<rparr>])
                   n ver key h)
         else Some idx)
      else None)"

declare remove_loop.simps [code]

definition remove_ws :: "WriteSet \<Rightarrow> WriteSetEntry \<Rightarrow> WriteSet option" where
  "remove_ws s log =
     (case remove_loop (ws_index s) (ilength s) (ws_version s) (addr log)
             (hash (addr log) (shift s)) of
        None \<Rightarrow> None
      | Some idx \<Rightarrow> Some (s\<lparr>ws_index := idx\<rparr>))"

subsection \<open>size and reset\<close>

text \<open>\<^verbatim>\<open>size_t size() const { return lsize; }\<close>\<close>

definition size_ws :: "WriteSet \<Rightarrow> nat" where
  "size_ws s = lsize s"

text \<open>
  \<^verbatim>\<open>lsize = 0; version += 1; if (version != 0) return; reset_internal();\<close>
\<close>

definition reset :: "WriteSet \<Rightarrow> WriteSet" where
  "reset s =
     (let s1 = s\<lparr>lsize := 0\<rparr>;
          s2 = s1\<lparr>ws_version := ws_version s1 + 1\<rparr>
      in if ws_version s2 \<noteq> 0 then s2 else reset_internal s2)"

subsection \<open>Well-formed write sets\<close>

text \<open>
  The conditions on the index that the operations rely on and keep: the index array
  has \<open>ilength\<close> slots, the shift is at most 32 and every hash value is a position of
  the index, the version counter is
  not 0, no slot carries a version above the current one, a live slot (one whose
  version is the current one) points to an entry of the list in use that has its
  address, and there are at most \<open>lsize\<close> live slots.
\<close>

definition index_ok :: "WriteSet \<Rightarrow> bool" where
  "index_ok s \<longleftrightarrow>
     length (ws_index s) = ilength s \<and> 2 \<le> ilength s \<and>
     shift s \<le> 32 \<and> 2 ^ (32 - shift s) \<le> ilength s \<and>
     lsize s \<le> length (ws_list s) \<and> ws_version s \<noteq> 0 \<and>
     (\<forall>e \<in> set (ws_index s). version e \<le> ws_version s \<and>
        (version e = ws_version s \<longrightarrow>
           index e < lsize s \<and> addr (ws_list s ! index e) = address e)) \<and>
     length (filter (\<lambda>e. version e = ws_version s) (ws_index s)) \<le> lsize s"

text \<open>
  A well-formed write set, between two operations: moreover the list array has
  \<open>capacity\<close> entries, one of them unused, and the load of the index is below a third.
\<close>

definition wf :: "WriteSet \<Rightarrow> bool" where
  "wf s \<longleftrightarrow>
     index_ok s \<and> length (ws_list s) = capacity s \<and> lsize s < capacity s \<and>
     lsize s * 3 < ilength s"

text \<open>An address is findable when the probe for it ends at a live slot holding it.\<close>

definition findable :: "WriteSet \<Rightarrow> 64 word \<Rightarrow> bool" where
  "findable s a \<longleftrightarrow>
     map_option fst (probe (ws_index s) (ilength s) (ws_version s) a (hash a (shift s)))
       = Some True"

text \<open>An address has a live binding when some live slot of the index holds it.\<close>

definition live_binding :: "WriteSet \<Rightarrow> 64 word \<Rightarrow> bool" where
  "live_binding s a \<longleftrightarrow>
     (\<exists>e \<in> set (ws_index s). version e = ws_version s \<and> address e = a)"

text \<open>
  The state of \<^verbatim>\<open>insert\<close> after the append at the free slot \<open>h\<close>, before the two
  growth tests, and the growth tests.
\<close>

definition appended :: "WriteSet \<Rightarrow> WriteSetEntry \<Rightarrow> nat \<Rightarrow> WriteSet" where
  "appended s log h =
     s\<lparr>ws_list := (ws_list s)[lsize s := log],
       ws_index := (ws_index s)
         [h := \<lparr>version = ws_version s, address = addr log, index = lsize s\<rparr>],
       lsize := lsize s + 1\<rparr>"

definition grown :: "WriteSet \<Rightarrow> WriteSet" where
  "grown s =
     (let s4 = (if lsize s = capacity s then resize s else s)
      in if lsize s4 * 3 \<ge> ilength s4 then rebuild s4 else s4)"

text \<open>
  The loop of \<open>rebuild\<close> after \<open>m\<close> entries: \<open>t\<close> has the doubled, fresh index with the
  first \<open>m\<close> entries of the list bound and findable in it, and nothing else changed.
\<close>

definition rebuilding :: "WriteSet \<Rightarrow> nat \<Rightarrow> WriteSet \<Rightarrow> bool" where
  "rebuilding s m t \<longleftrightarrow>
     ws_list t = ws_list s \<and> lsize t = lsize s \<and> capacity t = capacity s \<and>
     shift t = shift s - 1 \<and> ilength t = 2 * ilength s \<and> ws_version t = 1 \<and>
     length (ws_index t) = 2 * ilength s \<and>
     (\<forall>e \<in> set (ws_index t). version e \<le> 1 \<and>
        (version e = 1 \<longrightarrow> index e < m \<and> addr (ws_list s ! index e) = address e)) \<and>
     length (filter (\<lambda>e. version e = 1) (ws_index t)) \<le> m \<and>
     (\<forall>i<m. findable t (addr (ws_list s ! i)))"

subsection \<open>Sequences of operations\<close>

text \<open>
  The calls a transaction makes between two resets. \<^verbatim>\<open>find\<close> leaves the write set as
  it is; its \<open>log\<close> argument comes in with the value 0.
\<close>

datatype op = Insert "64 word" "64 word" | Find "64 word" | Remove "64 word"

fun apply_op :: "WriteSet \<Rightarrow> op \<Rightarrow> WriteSet option" where
  "apply_op s (Insert a v) = map_option snd (insert_ws s \<lparr>addr = a, val = v\<rparr>)"
| "apply_op s (Find a) = map_option (\<lambda>r. s) (find_ws s \<lparr>addr = a, val = 0\<rparr>)"
| "apply_op s (Remove a) = remove_ws s \<lparr>addr = a, val = 0\<rparr>"

fun run :: "WriteSet \<Rightarrow> op list \<Rightarrow> WriteSet option" where
  "run s [] = Some s"
| "run s (x # xs) = (case apply_op s x of None \<Rightarrow> None | Some s' \<Rightarrow> run s' xs)"

text \<open>The addresses a sequence inserts, and whether it is free of \<^verbatim>\<open>remove\<close>.\<close>

fun inserted :: "op list \<Rightarrow> 64 word set" where
  "inserted [] = {}"
| "inserted (Insert a v # xs) = insert a (inserted xs)"
| "inserted (Find a # xs) = inserted xs"
| "inserted (Remove a # xs) = inserted xs"

fun remove_free :: "op list \<Rightarrow> bool" where
  "remove_free [] = True"
| "remove_free (Remove a # xs) = False"
| "remove_free (x # xs) = remove_free xs"

text \<open>The entries in use: what \<^verbatim>\<open>begin()\<close> to \<^verbatim>\<open>end()\<close> iterates over.\<close>

definition entries :: "WriteSet \<Rightarrow> WriteSetEntry list" where
  "entries s = take (lsize s) (ws_list s)"

text \<open>
  A well-formed write set in which no address is logged twice and every logged address
  is findable: the state of a write set on which \<^verbatim>\<open>remove\<close> was not called since the
  last reset.
\<close>

definition coalesced :: "WriteSet \<Rightarrow> bool" where
  "coalesced s \<longleftrightarrow>
     wf s \<and> distinct (map addr (entries s)) \<and> (\<forall>e \<in> set (entries s). findable s (addr e))"

subsection \<open>Concrete write sets\<close>

text \<open>
  An empty write set with an index of 8 slots and a list of capacity 4; the same with
  the single entry (8, 7), which hashes to slot 7; the latter with an index of 4 slots
  and a list of capacity 2, where the next append rebuilds the index; and the first
  with two entries, and with the version counter at its last value.
\<close>

definition ws8_empty :: WriteSet where
  "ws8_empty =
     \<lparr>ws_index = replicate 8 index_t0, shift = 29, ilength = 8, ws_version = 1,
      ws_list = replicate 4 \<lparr>addr = 0, val = 0\<rparr>, capacity = 4, lsize = 0\<rparr>"

definition ws8_one :: WriteSet where
  "ws8_one =
     \<lparr>ws_index = replicate 7 index_t0 @ [\<lparr>version = 1, address = 8, index = 0\<rparr>],
      shift = 29, ilength = 8, ws_version = 1,
      ws_list = \<lparr>addr = 8, val = 7\<rparr> # replicate 3 \<lparr>addr = 0, val = 0\<rparr>,
      capacity = 4, lsize = 1\<rparr>"

definition ws4_one :: WriteSet where
  "ws4_one =
     \<lparr>ws_index = replicate 3 index_t0 @ [\<lparr>version = 1, address = 8, index = 0\<rparr>],
      shift = 30, ilength = 4, ws_version = 1,
      ws_list = [\<lparr>addr = 8, val = 7\<rparr>, \<lparr>addr = 0, val = 0\<rparr>],
      capacity = 2, lsize = 1\<rparr>"

definition ws8_two :: WriteSet where
  "ws8_two =
     \<lparr>ws_index = \<lparr>version = 1, address = 16, index = 1\<rparr> # replicate 6 index_t0 @
                  [\<lparr>version = 1, address = 8, index = 0\<rparr>],
      shift = 29, ilength = 8, ws_version = 1,
      ws_list = [\<lparr>addr = 8, val = 7\<rparr>, \<lparr>addr = 16, val = 5\<rparr>,
                 \<lparr>addr = 0, val = 0\<rparr>, \<lparr>addr = 0, val = 0\<rparr>],
      capacity = 4, lsize = 2\<rparr>"

definition ws8_last :: WriteSet where
  "ws8_last =
     \<lparr>ws_index = replicate 7 index_t0 @
                  [\<lparr>version = 0xFFFFFFFFFFFFFFFF, address = 8, index = 0\<rparr>],
      shift = 29, ilength = 8, ws_version = 0xFFFFFFFFFFFFFFFF,
      ws_list = \<lparr>addr = 8, val = 7\<rparr> # replicate 3 \<lparr>addr = 0, val = 0\<rparr>,
      capacity = 4, lsize = 1\<rparr>"



definition zero_memory :: memory where
  "zero_memory = (\<lambda>a. 0)"

section \<open>Lemmas on probing and on the operations\<close>

lemma hash_lt: "hash key sh < 2 ^ (32 - sh)"
proof -
  have m: "(0xFFFFFFFF :: 64 word) = mask 32" by (simp add: mask_eq_exp_minus_1)
  have "hash key sh = (unat (key * 2654435769) mod 2 ^ 32) div 2 ^ sh"
    unfolding hash_def m take_bit_eq_mask[symmetric] unat_drop_bit_eq unsigned_take_bit_eq
    by (simp add: drop_bit_eq_div take_bit_eq_mod)
  moreover have "((x::nat) mod 2 ^ 32) div 2 ^ sh < 2 ^ (32 - sh)" for x
  proof (cases "sh \<le> 32")
    case True
    have "x mod 2 ^ 32 < 2 ^ 32" by simp
    also have "(2::nat) ^ 32 = 2 ^ (32 - sh) * 2 ^ sh" using True by (simp flip: power_add)
    finally show ?thesis by (simp add: less_mult_imp_div_less)
  next
    case False
    have "x mod 2 ^ 32 < (2::nat) ^ 32" by simp
    also have "(2::nat) ^ 32 \<le> 2 ^ sh" using False by (intro power_increasing) auto
    finally show ?thesis by simp
  qed
  ultimately show ?thesis by simp
qed

lemma cyc_offset:
  assumes "h < n" "p < (n::nat)"
  shows "\<exists>k<n. (h + k) mod n = p"
proof (cases "h \<le> p")
  case True
  then show ?thesis using assms by (intro exI[of _ "p - h"]) auto
next
  case False
  then have "(h + (n + p - h)) mod n = p" using assms by simp
  moreover have "n + p - h < n" using False assms by simp 
  ultimately show ?thesis by blast
qed

lemma cyc_lt: "h < n \<Longrightarrow> (h + k) mod n < (n::nat)"
  by (cases n) auto

lemma probe_run:
  assumes "n = length idx" "h < n"
    and "\<forall>j<k. version (idx ! ((h + j) mod n)) = ver \<and> address (idx ! ((h + j) mod n)) \<noteq> key"
  shows "probe idx n ver key h = probe idx n ver key ((h + k) mod n)"
  using assms(3)
proof (induction k)
  case 0
  then show ?case using assms(2) by simp
next
  case (Suc k)
  then have "probe idx n ver key h = probe idx n ver key ((h + k) mod n)" by simp
  also have "\<dots> = probe idx n ver key (((h + k) mod n + 1) mod n)"
  proof -
    have "0 < n" "(h + k) mod n < length idx" using assms(1,2) cyc_lt[of h n k] by auto
    then show ?thesis using Suc.prems by (subst probe.simps) simp
  qed
  also have "((h + k) mod n + 1) mod n = (h + Suc k) mod n"
    by (simp add: mod_Suc_eq)
  finally show ?case .
qed

lemma probe_stop:
  assumes "n = length idx" "h < n"
    and "\<forall>j<k. version (idx ! ((h + j) mod n)) = ver \<and> address (idx ! ((h + j) mod n)) \<noteq> key"
    and "version (idx ! ((h + k) mod n)) \<noteq> ver \<or> address (idx ! ((h + k) mod n)) = key"
  shows "probe idx n ver key h = Some (version (idx ! ((h + k) mod n)) = ver, (h + k) mod n)"
proof -
  have "(h + k) mod n < length idx" using assms(1,2) cyc_lt[of h n k] by auto
  then have "probe idx n ver key ((h + k) mod n) = Some (version (idx ! ((h + k) mod n)) = ver, (h + k) mod n)"
    using assms(4) by (subst probe.simps) auto
  then show ?thesis using probe_run[OF assms(1,2,3)] by simp
qed

lemma probe_exit:
  assumes n: "n = length idx" and h: "h < n" and free: "\<exists>p<n. version (idx ! p) \<noteq> ver"
  obtains k where "k < n"
    and "\<forall>j<k. version (idx ! ((h + j) mod n)) = ver \<and> address (idx ! ((h + j) mod n)) \<noteq> key"
    and "version (idx ! ((h + k) mod n)) \<noteq> ver \<or> address (idx ! ((h + k) mod n)) = key"
    and "probe idx n ver key h = Some (version (idx ! ((h + k) mod n)) = ver, (h + k) mod n)"
proof -
  let ?P = "\<lambda>k. version (idx ! ((h + k) mod n)) \<noteq> ver \<or> address (idx ! ((h + k) mod n)) = key"
  from free obtain p where p: "p < n" "version (idx ! p) \<noteq> ver" by blast
  from cyc_offset[OF h p(1)] obtain k0 where k0: "k0 < n" "(h + k0) mod n = p" by blast
  then have P0: "?P k0" using p by simp
  define k where "k = (LEAST k. ?P k)"
  have Pk: "?P k" unfolding k_def using P0 by (rule LeastI)
  have le: "k \<le> k0" unfolding k_def using P0 by (rule Least_le)
  have before: "\<forall>j<k. version (idx ! ((h + j) mod n)) = ver \<and> address (idx ! ((h + j) mod n)) \<noteq> key"
  proof (intro allI impI)
    fix j assume "j < k"
    then have "\<not> ?P j" unfolding k_def by (rule not_less_Least)
    then show "version (idx ! ((h + j) mod n)) = ver \<and> address (idx ! ((h + j) mod n)) \<noteq> key" by simp
  qed
  show ?thesis
    using that[of k] le k0(1) before Pk probe_stop[OF n h before Pk] by simp
qed

lemma remove_run:
  assumes "n = length idx" "h < n"
    and "\<forall>j<k. version (idx ! ((h + j) mod n)) = ver \<and> address (idx ! ((h + j) mod n)) \<noteq> key"
  shows "remove_loop idx n ver key h = remove_loop idx n ver key ((h + k) mod n)"
  using assms(3)
proof (induction k)
  case 0
  then show ?case using assms(2) by simp
next
  case (Suc k)
  then have "remove_loop idx n ver key h = remove_loop idx n ver key ((h + k) mod n)" by simp
  also have "\<dots> = remove_loop idx n ver key (((h + k) mod n + 1) mod n)"
  proof -
    have "0 < n" "(h + k) mod n < length idx" using assms(1,2) cyc_lt[of h n k] by auto
    then show ?thesis using Suc.prems by (subst remove_loop.simps) simp
  qed
  also have "((h + k) mod n + 1) mod n = (h + Suc k) mod n"
    by (simp add: mod_Suc_eq)
  finally show ?case .
qed

lemma remove_loop_at:
  assumes "q < length idx"
  shows "remove_loop idx n ver key q =
     (if version (idx ! q) = ver \<and> address (idx ! q) = key
      then Some (idx[q := (idx ! q)\<lparr>version := version (idx ! q) - 1\<rparr>])
      else if version (idx ! q) \<noteq> ver then Some idx
      else remove_loop idx n ver key q)"
proof (cases "version (idx ! q) = ver \<and> address (idx ! q) = key")
  case True
  let ?idx' = "idx[q := (idx ! q)\<lparr>version := version (idx ! q) - 1\<rparr>]"
  have "remove_loop idx n ver key q = remove_loop ?idx' n ver key q"
    using True assms by (subst remove_loop.simps) simp
  also have "\<dots> = Some ?idx'"
    using True assms by (subst remove_loop.simps) simp
  finally show ?thesis using True by simp
next
  case False
  show ?thesis
  proof (cases "version (idx ! q) = ver")
    case True
    then show ?thesis using False by simp
  next
    case nl: False
    then show ?thesis using assms by (subst remove_loop.simps) simp
  qed
qed

lemma remove_loop_probe:
  assumes n: "n = length idx" and h: "h < n" and free: "\<exists>p<n. version (idx ! p) \<noteq> ver"
  shows "remove_loop idx n ver key h =
     (case probe idx n ver key h of
        None \<Rightarrow> None
      | Some (found, q) \<Rightarrow>
          if found then Some (idx[q := (idx ! q)\<lparr>version := version (idx ! q) - 1\<rparr>])
          else Some idx)"
proof -
  from probe_exit[OF n h free, of key] obtain k where k: "k < n"
    "\<forall>j<k. version (idx ! ((h + j) mod n)) = ver \<and> address (idx ! ((h + j) mod n)) \<noteq> key"
    "version (idx ! ((h + k) mod n)) \<noteq> ver \<or> address (idx ! ((h + k) mod n)) = key"
    "probe idx n ver key h = Some (version (idx ! ((h + k) mod n)) = ver, (h + k) mod n)"
    by blast
  have q: "(h + k) mod n < length idx" using n h cyc_lt[of h n k] by simp
  show ?thesis
    using remove_run[OF n h k(2)] remove_loop_at[OF q, of n ver key] k(3,4) by auto
qed

lemma count_upd_new:
  "p < length xs \<Longrightarrow> \<not> P (xs ! p) \<Longrightarrow> P x \<Longrightarrow>
     length (filter P (xs[p := x])) = Suc (length (filter P xs))"
proof (induction xs arbitrary: p)
  case Nil
  then show ?case by simp
next
  case (Cons y ys)
  then show ?case by (cases p) auto
qed

lemma count_upd_le:
  "\<not> P x \<Longrightarrow> length (filter P (xs[p := x])) \<le> length (filter P xs)"
proof (induction xs arbitrary: p)
  case Nil
  then show ?case by simp
next
  case (Cons y ys)
  then show ?case by (cases p) (auto simp: le_SucI)
qed

lemma count_all:
  assumes "\<forall>p<length xs. P (xs ! p)"
  shows "length (filter P xs) = length xs"
proof -
  have "\<forall>x\<in>set xs. P x" using assms by (auto simp: in_set_conv_nth)
  then show ?thesis by simp
qed

lemma free_exists:
  assumes "length (filter (\<lambda>e. version e = ver) idx) < length idx"
  shows "\<exists>p<length idx. version (idx ! p) \<noteq> ver"
proof (rule ccontr)
  assume "\<not> ?thesis"
  then have "\<forall>p<length idx. version (idx ! p) = ver" by simp
  from count_all[of idx "\<lambda>e. version e = ver", OF this] assms show False by simp
qed

lemma free_slot_None:
  assumes "h < length idx" "free_slot idx ver h fuel = None"
  shows "\<forall>j<fuel. version (idx ! ((h + j) mod length idx)) = ver"
  using assms
proof (induction fuel arbitrary: h)
  case 0
  then show ?case by simp
next
  case (Suc fuel)
  from Suc.prems have live: "version (idx ! h) = ver"
    and rest: "free_slot idx ver ((h + 1) mod length idx) fuel = None"
    by (auto split: if_splits)
  have "(h + 1) mod length idx < length idx" using Suc.prems(1) cyc_lt by blast
  from Suc.IH[OF this rest]
  have IH: "\<forall>j<fuel. version (idx ! ((h + Suc j) mod length idx)) = ver"
    by (simp add: mod_Suc_eq mod_add_left_eq)
  show ?case
  proof (intro allI impI)
    fix j assume "j < Suc fuel"
    then show "version (idx ! ((h + j) mod length idx)) = ver"
      using live IH Suc.prems(1) by (cases j) auto
  qed
qed

lemma free_slot_Some:
  assumes "h < length idx" "free_slot idx ver h fuel = Some p"
  shows "\<exists>k<fuel. p = (h + k) mod length idx \<and> version (idx ! p) \<noteq> ver \<and>
           (\<forall>j<k. version (idx ! ((h + j) mod length idx)) = ver)"
  using assms
proof (induction fuel arbitrary: h)
  case 0
  then show ?case by simp
next
  case (Suc fuel)
  show ?case
  proof (cases "version (idx ! h) \<noteq> ver")
    case True
    then have "p = h" using Suc.prems by simp
    then show ?thesis using True Suc.prems(1) by (intro exI[of _ 0]) simp
  next
    case False
    then have rest: "free_slot idx ver ((h + 1) mod length idx) fuel = Some p"
      using Suc.prems by simp
    have "(h + 1) mod length idx < length idx" using Suc.prems(1) cyc_lt by blast
    from Suc.IH[OF this rest] obtain k where k: "k < fuel" "p = (h + Suc k) mod length idx"
      "version (idx ! p) \<noteq> ver" "\<forall>j<k. version (idx ! ((h + Suc j) mod length idx)) = ver"
      by (auto simp: mod_Suc_eq mod_add_left_eq)
    have "\<forall>j<Suc k. version (idx ! ((h + j) mod length idx)) = ver"
    proof (intro allI impI)
      fix j assume "j < Suc k"
      then show "version (idx ! ((h + j) mod length idx)) = ver"
        using False k(4) Suc.prems(1) by (cases j) auto
    qed
    then show ?thesis using k by (intro exI[of _ "Suc k"]) simp
  qed
qed

lemma free_slot_total:
  assumes "h < length idx" "\<exists>p<length idx. version (idx ! p) \<noteq> ver"
  shows "free_slot idx ver h (length idx) \<noteq> None"
proof
  assume "free_slot idx ver h (length idx) = None"
  from free_slot_None[OF assms(1) this]
  have all: "\<forall>j<length idx. version (idx ! ((h + j) mod length idx)) = ver" .
  from assms(2) obtain p where p: "p < length idx" "version (idx ! p) \<noteq> ver" by blast
  from cyc_offset[OF assms(1) p(1)] obtain k where "k < length idx" "(h + k) mod length idx = p"
    by blast
  then show False using all p(2) by auto
qed

lemma probe_hit_if:
  assumes n: "n = length idx" and h: "h < n"
    and live: "\<forall>j\<le>k. version (idx ! ((h + j) mod n)) = ver"
    and key: "address (idx ! ((h + k) mod n)) = key"
  shows "\<exists>q<n. probe idx n ver key h = Some (True, q) \<and> version (idx ! q) = ver \<and> address (idx ! q) = key"
proof -
  let ?P = "\<lambda>k. address (idx ! ((h + k) mod n)) = key"
  define k' where "k' = (LEAST k. ?P k)"
  have Pk: "?P k'" unfolding k'_def using key by (rule LeastI)
  have le: "k' \<le> k" unfolding k'_def using key by (rule Least_le)
  have before: "\<forall>j<k'. version (idx ! ((h + j) mod n)) = ver \<and> address (idx ! ((h + j) mod n)) \<noteq> key"
  proof (intro allI impI)
    fix j assume j: "j < k'"
    then have "\<not> ?P j" unfolding k'_def by (rule not_less_Least)
    then show "version (idx ! ((h + j) mod n)) = ver \<and> address (idx ! ((h + j) mod n)) \<noteq> key"
      using live le j by simp
  qed
  have lv: "version (idx ! ((h + k') mod n)) = ver" using live le by simp
  have "probe idx n ver key h = Some (True, (h + k') mod n)"
    using probe_stop[OF n h before] Pk lv by simp
  then show ?thesis using Pk lv cyc_lt[OF h, of k'] by blast
qed

lemma probe_hit_chain:
  assumes n: "n = length idx" and h: "h < n" and free: "\<exists>p<n. version (idx ! p) \<noteq> ver"
    and hit: "probe idx n ver key h = Some (True, q)"
  shows "\<exists>k. q = (h + k) mod n \<and> (\<forall>j\<le>k. version (idx ! ((h + j) mod n)) = ver) \<and>
            address (idx ! q) = key"
proof -
  from probe_exit[OF n h free, of key] obtain k where k: "k < n"
    "\<forall>j<k. version (idx ! ((h + j) mod n)) = ver \<and> address (idx ! ((h + j) mod n)) \<noteq> key"
    "version (idx ! ((h + k) mod n)) \<noteq> ver \<or> address (idx ! ((h + k) mod n)) = key"
    "probe idx n ver key h = Some (version (idx ! ((h + k) mod n)) = ver, (h + k) mod n)"
    by blast
  from k(4) hit have q: "q = (h + k) mod n" and lv: "version (idx ! ((h + k) mod n)) = ver" by auto
  have "\<forall>j\<le>k. version (idx ! ((h + j) mod n)) = ver"
    using k(2) lv by (auto simp: le_less)
  then show ?thesis using q k(3) lv by blast
qed

lemma probe_miss_chain:
  assumes n: "n = length idx" and h: "h < n" and free: "\<exists>p<n. version (idx ! p) \<noteq> ver"
    and miss: "probe idx n ver key h = Some (False, q)"
  shows "\<exists>k. q = (h + k) mod n \<and> version (idx ! q) \<noteq> ver \<and>
     (\<forall>j<k. version (idx ! ((h + j) mod n)) = ver \<and> address (idx ! ((h + j) mod n)) \<noteq> key)"
proof -
  from probe_exit[OF n h free, of key] obtain k where k: "k < n"
    "\<forall>j<k. version (idx ! ((h + j) mod n)) = ver \<and> address (idx ! ((h + j) mod n)) \<noteq> key"
    "version (idx ! ((h + k) mod n)) \<noteq> ver \<or> address (idx ! ((h + k) mod n)) = key"
    "probe idx n ver key h = Some (version (idx ! ((h + k) mod n)) = ver, (h + k) mod n)"
    by blast
  from k(4) miss have "q = (h + k) mod n" "version (idx ! ((h + k) mod n)) \<noteq> ver" by auto
  then show ?thesis using k(2) by blast
qed

text \<open>Writing a slot that is not live: every probe that ended at a live slot still does.\<close>

lemma probe_hit_upd:
  assumes n: "n = length idx" and h: "h < n" and p: "p < n" "version (idx ! p) \<noteq> ver"
    and hit: "probe idx n ver key h = Some (True, q)"
  shows "probe (idx[p := e]) n ver key h = Some (True, q)"
proof -
  have free: "\<exists>p<n. version (idx ! p) \<noteq> ver" using p by blast
  from probe_exit[OF n h free, of key] obtain k where k: "k < n"
    "\<forall>j<k. version (idx ! ((h + j) mod n)) = ver \<and> address (idx ! ((h + j) mod n)) \<noteq> key"
    "version (idx ! ((h + k) mod n)) \<noteq> ver \<or> address (idx ! ((h + k) mod n)) = key"
    "probe idx n ver key h = Some (version (idx ! ((h + k) mod n)) = ver, (h + k) mod n)"
    by blast
  from k(4) hit have q: "q = (h + k) mod n" and lv: "version (idx ! ((h + k) mod n)) = ver" by auto
  have same: "(idx[p := e]) ! ((h + j) mod n) = idx ! ((h + j) mod n)" if "j \<le> k" for j
  proof -
    have "version (idx ! ((h + j) mod n)) = ver" using that k(2) lv by (cases "j = k") auto
    then have "(h + j) mod n \<noteq> p" using p(2) by auto
    then show ?thesis by simp
  qed
  have n': "n = length (idx[p := e])" using n by simp
  have before: "\<forall>j<k. version (idx[p := e] ! ((h + j) mod n)) = ver \<and> address (idx[p := e] ! ((h + j) mod n)) \<noteq> key"
    using k(2) same by simp
  have stop: "version (idx[p := e] ! ((h + k) mod n)) \<noteq> ver \<or> address (idx[p := e] ! ((h + k) mod n)) = key"
    using k(3) same[of k] by simp
  show ?thesis using probe_stop[OF n' h before stop] same[of k] lv q by simp
qed

text \<open>Claiming the free slot at the end of a chain of live slots binds the key.\<close>

lemma probe_hit_new:
  assumes n: "n = length idx" and h: "h < n"
    and chain: "\<forall>j<k. version (idx ! ((h + j) mod n)) = ver"
    and p: "p = (h + k) mod n" "version (idx ! p) \<noteq> ver"
    and e: "version e = ver" "address e = key"
  shows "\<exists>q<n. probe (idx[p := e]) n ver key h = Some (True, q) \<and>
           version (idx[p := e] ! q) = ver \<and> address (idx[p := e] ! q) = key"
proof -
  have pn: "p < n" using p(1) cyc_lt[OF h] by simp
  have n': "n = length (idx[p := e])" using n by simp
  have live: "\<forall>j\<le>k. version (idx[p := e] ! ((h + j) mod n)) = ver"
  proof (intro allI impI)
    fix j assume j: "j \<le> k"
    show "version (idx[p := e] ! ((h + j) mod n)) = ver"
    proof (cases "(h + j) mod n = p")
      case True
      then show ?thesis using e(1) pn n by simp
    next
      case False
      then have "j < k" using j p(1) by (cases "j = k") auto
      then show ?thesis using chain False by simp
    qed
  qed
  have key: "address (idx[p := e] ! ((h + k) mod n)) = key" using p(1) pn n e(2) by simp
  show ?thesis using probe_hit_if[OF n' h live key] .
qed

lemma findable_iff:
  "findable s a \<longleftrightarrow> (\<exists>q. probe (ws_index s) (ilength s) (ws_version s) a (hash a (shift s)) = Some (True, q))"
  by (auto simp: findable_def)

lemma hash_lt_pred: "2 ^ (32 - sh) \<le> n \<Longrightarrow> hash key (sh - 1) < 2 * n"
proof -
  assume a: "2 ^ (32 - sh) \<le> n"
  have "(2::nat) ^ (32 - (sh - 1)) \<le> 2 * 2 ^ (32 - sh)"
  proof -
    have "32 - (sh - 1) \<le> Suc (32 - sh)" by simp
    then have "(2::nat) ^ (32 - (sh - 1)) \<le> 2 ^ Suc (32 - sh)" by (rule power_increasing) simp
    then show ?thesis by simp
  qed
  then show ?thesis using hash_lt[of key "sh - 1"] a by simp
qed

lemma rebuilding_0:
  "rebuilding s 0 (s\<lparr>ws_index := replicate (2 * ilength s) index_t0, shift := shift s - 1,
                     ilength := 2 * ilength s, ws_version := 1\<rparr>)"
  by (simp add: rebuilding_def index_t0_def)

lemma rebuilding_step:
  assumes rb: "rebuilding s m t" and m: "m < 2 * ilength s" and sh: "2 ^ (32 - shift s) \<le> ilength s"
  shows "rebuilding s (Suc m) (reinsert m t)"
proof -
  let ?idx = "ws_index t" and ?n = "2 * ilength s"
  let ?a = "addr (ws_list s ! m)"
  let ?h = "hash ?a (shift s - 1)"
  from rb have t: "ws_list t = ws_list s" "lsize t = lsize s" "capacity t = capacity s"
    "shift t = shift s - 1" "ilength t = ?n" "ws_version t = 1" "length ?idx = ?n"
    and slots: "\<forall>e \<in> set ?idx. version e \<le> 1 \<and>
        (version e = 1 \<longrightarrow> index e < m \<and> addr (ws_list s ! index e) = address e)"
    and cnt: "length (filter (\<lambda>e. version e = 1) ?idx) \<le> m"
    and fnd: "\<forall>i<m. findable t (addr (ws_list s ! i))"
    by (simp_all add: rebuilding_def)
  have h: "?h < length ?idx" using hash_lt_pred[OF sh] t(7) by simp
  have n: "?n = length ?idx" using t(7) by simp
  have free: "\<exists>p<length ?idx. version (?idx ! p) \<noteq> 1"
    using cnt m t(7) by (intro free_exists) simp
  from free_slot_total[OF h free] obtain p where fs: "free_slot ?idx 1 ?h (length ?idx) = Some p"
    by blast
  from free_slot_Some[OF h fs] obtain k where k: "p = (?h + k) mod length ?idx"
    "version (?idx ! p) \<noteq> 1" "\<forall>j<k. version (?idx ! ((?h + j) mod length ?idx)) = 1"
    by blast
  have pn: "p < length ?idx" using k(1) cyc_lt[OF h] by simp
  let ?e = "\<lparr>version = 1, address = ?a, index = m\<rparr>"
  have eq: "reinsert m t = t\<lparr>ws_index := ?idx[p := ?e]\<rparr>"
    using fs by (simp add: reinsert_def t)
  have slots': "\<forall>e \<in> set (?idx[p := ?e]). version e \<le> 1 \<and>
        (version e = 1 \<longrightarrow> index e < Suc m \<and> addr (ws_list s ! index e) = address e)"
  proof
    fix e assume "e \<in> set (?idx[p := ?e])"
    then have "e = ?e \<or> e \<in> set ?idx" using set_update_subset_insert[of ?idx p ?e] by auto
    then show "version e \<le> 1 \<and>
        (version e = 1 \<longrightarrow> index e < Suc m \<and> addr (ws_list s ! index e) = address e)"
      using slots by (auto simp: less_Suc_eq)
  qed
  have cnt': "length (filter (\<lambda>e. version e = 1) (?idx[p := ?e])) \<le> Suc m"
    using count_upd_new[of p ?idx "\<lambda>e. version e = 1" ?e] pn k(2) cnt by simp
  have fnd': "findable (reinsert m t) (addr (ws_list s ! i))" if "i < Suc m" for i
  proof (cases "i = m")
    case True
    have h': "?h < ?n" using h n by simp
    have kk: "p = (?h + k) mod ?n" "\<forall>j<k. version (?idx ! ((?h + j) mod ?n)) = 1"
      using k(1,3) n by simp_all
    from probe_hit_new[OF n h' kk(2) kk(1) k(2), of ?e ?a]
    show ?thesis unfolding findable_iff eq using True t by auto
  next
    case False
    then have "i < m" using that by simp
    with fnd obtain q where q: "probe ?idx ?n 1 (addr (ws_list s ! i)) (hash (addr (ws_list s ! i)) (shift s - 1)) = Some (True, q)"
      unfolding findable_iff t by auto
    have hi: "hash (addr (ws_list s ! i)) (shift s - 1) < ?n" using hash_lt_pred[OF sh] by simp
    have pn': "p < ?n" using pn n by simp
    from probe_hit_upd[OF n hi pn' k(2) q, of ?e]
    show ?thesis unfolding findable_iff eq using t by auto
  qed
  show ?thesis
    unfolding rebuilding_def using t slots' cnt' fnd' by (simp add: eq)
qed

lemma rebuilding_fold:
  assumes "m \<le> 2 * ilength s" "2 ^ (32 - shift s) \<le> ilength s"
  shows "rebuilding s m (fold reinsert [0 ..< m]
           (s\<lparr>ws_index := replicate (2 * ilength s) index_t0, shift := shift s - 1,
              ilength := 2 * ilength s, ws_version := 1\<rparr>))"
  using assms(1)
proof (induction m)
  case 0
  show ?case using rebuilding_0 by simp
next
  case (Suc m)
  then show ?case using rebuilding_step[OF _ _ assms(2), of m] by simp
qed

lemma rebuilding_rebuild:
  assumes "lsize s \<le> 2 * ilength s" "2 ^ (32 - shift s) \<le> ilength s"
  shows "rebuilding s (lsize s) (rebuild s)"
  unfolding rebuild_def using rebuilding_fold[OF assms] .

lemma probe_Some_aux:
  assumes "probe idx n ver key h = Some y"
  shows "snd y < length idx \<and> (fst y \<longleftrightarrow> version (idx ! snd y) = ver) \<and>
     (fst y \<longrightarrow> address (idx ! snd y) = key)"
  by (rule probe.raw_induct[where P = "\<lambda>idx n ver key h y.
        snd y < length idx \<and> (fst y \<longleftrightarrow> version (idx ! snd y) = ver) \<and>
        (fst y \<longrightarrow> address (idx ! snd y) = key)", OF _ assms])
     (auto split: if_splits)

lemma probe_SomeD:
  assumes "probe idx n ver key h = Some (b, q)"
  shows "q < length idx" "b \<longleftrightarrow> version (idx ! q) = ver" "b \<Longrightarrow> address (idx ! q) = key"
  using probe_Some_aux[OF assms] by simp_all

lemma index_ok_free:
  assumes "index_ok s" "lsize s < ilength s"
  shows "\<exists>p<ilength s. version (ws_index s ! p) \<noteq> ws_version s"
proof -
  have "length (filter (\<lambda>e. version e = ws_version s) (ws_index s)) < length (ws_index s)"
    using assms by (simp add: index_ok_def)
  from free_exists[OF this] show ?thesis using assms(1) by (simp add: index_ok_def)
qed

lemma hash_range: "index_ok s \<Longrightarrow> hash a (shift s) < ilength s"
  using hash_lt[of a "shift s"] by (simp add: index_ok_def)

lemma index_ok_slot:
  assumes "index_ok s" "q < ilength s" "version (ws_index s ! q) = ws_version s"
  shows "index (ws_index s ! q) < lsize s \<and>
         addr (ws_list s ! index (ws_index s ! q)) = address (ws_index s ! q)"
proof -
  have "ws_index s ! q \<in> set (ws_index s)" using assms(1,2) by (simp add: index_ok_def)
  then show ?thesis using assms(1,3) by (simp add: index_ok_def)
qed

lemma probe_defined:
  assumes "index_ok s" "lsize s < ilength s"
  shows "\<exists>b q. probe (ws_index s) (ilength s) (ws_version s) a (hash a (shift s)) = Some (b, q)"
proof -
  have n: "ilength s = length (ws_index s)" using assms(1) by (simp add: index_ok_def)
  from probe_exit[OF n hash_range[OF assms(1)] index_ok_free[OF assms], of a]
  show ?thesis by metis
qed

lemma slot_overwrite:
  "(r::index_t)\<lparr>address := a, version := v, index := i\<rparr> = \<lparr>version = v, address = a, index = i\<rparr>"
  by (cases r) simp

lemma insert_ws_miss:
  assumes "probe (ws_index s) (ilength s) (ws_version s) (addr log) (hash (addr log) (shift s)) = Some (False, q)"
    and "lsize s < length (ws_list s)"
  shows "insert_ws s log = Some (False, grown (appended s log q))"
proof -
  have "appended s log q =
     s\<lparr>ws_list := (ws_list s)[lsize s := log],
       ws_index := (ws_index s)
         [q := (ws_index s ! q)\<lparr>address := addr log, version := ws_version s, index := lsize s\<rparr>],
       lsize := lsize s + 1\<rparr>"
    by (simp add: appended_def slot_overwrite)
  then show ?thesis using assms by (simp add: insert_ws_def grown_def Let_def)
qed

lemma insert_ws_hit:
  assumes "probe (ws_index s) (ilength s) (ws_version s) (addr log) (hash (addr log) (shift s)) = Some (True, q)"
    and "index (ws_index s ! q) < length (ws_list s)"
  shows "insert_ws s log = Some (True,
           s\<lparr>ws_list := (ws_list s)[index (ws_index s ! q) :=
                update (ws_list s ! index (ws_index s ! q)) log]\<rparr>)"
  using assms by (simp add: insert_ws_def Let_def)

lemma appended_fields:
  "ws_list (appended s log q) = (ws_list s)[lsize s := log]"
  "ws_index (appended s log q) = (ws_index s)[q := \<lparr>version = ws_version s, address = addr log, index = lsize s\<rparr>]"
  "lsize (appended s log q) = lsize s + 1"
  "shift (appended s log q) = shift s"
  "ilength (appended s log q) = ilength s"
  "ws_version (appended s log q) = ws_version s"
  "capacity (appended s log q) = capacity s"
  by (simp_all add: appended_def)

lemma appended_index_ok:
  assumes ok: "index_ok s" and sz: "lsize s < length (ws_list s)"
    and q: "q < ilength s" "version (ws_index s ! q) \<noteq> ws_version s"
  shows "index_ok (appended s log q)"
proof -
  let ?e = "\<lparr>version = ws_version s, address = addr log, index = lsize s\<rparr>"
  from ok have len: "length (ws_index s) = ilength s"
    and slots: "\<forall>e \<in> set (ws_index s). version e \<le> ws_version s \<and>
        (version e = ws_version s \<longrightarrow>
           index e < lsize s \<and> addr (ws_list s ! index e) = address e)"
    and cnt: "length (filter (\<lambda>e. version e = ws_version s) (ws_index s)) \<le> lsize s"
    by (simp_all add: index_ok_def)
  have slots': "\<forall>e \<in> set ((ws_index s)[q := ?e]). version e \<le> ws_version s \<and>
        (version e = ws_version s \<longrightarrow>
           index e < lsize s + 1 \<and> addr ((ws_list s)[lsize s := log] ! index e) = address e)"
  proof
    fix e assume "e \<in> set ((ws_index s)[q := ?e])"
    then have "e = ?e \<or> e \<in> set (ws_index s)"
      using set_update_subset_insert[of "ws_index s" q ?e] by auto
    then show "version e \<le> ws_version s \<and>
        (version e = ws_version s \<longrightarrow>
           index e < lsize s + 1 \<and> addr ((ws_list s)[lsize s := log] ! index e) = address e)"
      using slots sz by (auto simp: nth_list_update)
  qed
  have cnt': "length (filter (\<lambda>e. version e = ws_version s) ((ws_index s)[q := ?e])) \<le> lsize s + 1"
    using count_upd_new[of q "ws_index s" "\<lambda>e. version e = ws_version s" ?e] q len cnt by simp
  show ?thesis
    unfolding index_ok_def appended_fields using ok slots' cnt' sz
    by (simp add: index_ok_def)
qed

lemma appended_findable_new:
  assumes ok: "index_ok s" and free: "lsize s < ilength s"
    and miss: "probe (ws_index s) (ilength s) (ws_version s) (addr log) (hash (addr log) (shift s)) = Some (False, q)"
  shows "findable (appended s log q) (addr log)"
proof -
  have n: "ilength s = length (ws_index s)" using ok by (simp add: index_ok_def)
  from probe_miss_chain[OF n hash_range[OF ok] index_ok_free[OF ok free] miss]
  obtain k where k: "q = (hash (addr log) (shift s) + k) mod ilength s"
    "version (ws_index s ! q) \<noteq> ws_version s"
    "\<forall>j<k. version (ws_index s ! ((hash (addr log) (shift s) + j) mod ilength s)) = ws_version s"
    by blast
  from probe_hit_new[OF n hash_range[OF ok] k(3) k(1) k(2),
      of "\<lparr>version = ws_version s, address = addr log, index = lsize s\<rparr>" "addr log"]
  show ?thesis unfolding findable_iff appended_fields by auto
qed

lemma appended_findable_old:
  assumes ok: "index_ok s"
    and q: "q < ilength s" "version (ws_index s ! q) \<noteq> ws_version s"
    and f: "findable s a"
  shows "findable (appended s log q) a"
proof -
  have n: "ilength s = length (ws_index s)" using ok by (simp add: index_ok_def)
  from f obtain p where "probe (ws_index s) (ilength s) (ws_version s) a (hash a (shift s)) = Some (True, p)"
    unfolding findable_iff by blast
  from probe_hit_upd[OF n hash_range[OF ok] q this]
  show ?thesis unfolding findable_iff appended_fields by blast
qed

lemma findable_slot:
  assumes "index_ok s" "findable s a"
  shows "\<exists>i<lsize s. addr (ws_list s ! i) = a"
proof -
  from assms(2) obtain q where q: "probe (ws_index s) (ilength s) (ws_version s) a (hash a (shift s)) = Some (True, q)"
    unfolding findable_iff by blast
  from probe_SomeD[OF q] have "q < ilength s" "version (ws_index s ! q) = ws_version s"
    "address (ws_index s ! q) = a"
    using assms(1) by (simp_all add: index_ok_def)
  with index_ok_slot[OF assms(1), of q] show ?thesis by auto
qed

lemma findable_live_binding:
  assumes "findable s a"
  shows "live_binding s a"
proof -
  from assms obtain q where q: "probe (ws_index s) (ilength s) (ws_version s) a (hash a (shift s)) = Some (True, q)"
    unfolding findable_iff by blast
  from probe_SomeD[OF q] have "ws_index s ! q \<in> set (ws_index s)" "version (ws_index s ! q) = ws_version s"
    "address (ws_index s ! q) = a" by simp_all
  then show ?thesis unfolding live_binding_def by blast
qed

lemma live_binding_entry:
  assumes "index_ok s" "live_binding s a"
  shows "\<exists>i<lsize s. addr (ws_list s ! i) = a"
  using assms unfolding live_binding_def index_ok_def by blast

lemma resize_fields:
  "ws_index (resize s) = ws_index s" "shift (resize s) = shift s" "ilength (resize s) = ilength s"
  "ws_version (resize s) = ws_version s" "lsize (resize s) = lsize s"
  "capacity (resize s) = 2 * capacity s"
  "ws_list (resize s) = ws_list s @ replicate (capacity s) \<lparr>addr = 0, val = 0\<rparr>"
  by (simp_all add: resize_def)

lemma resize_index_ok:
  assumes "index_ok s"
  shows "index_ok (resize s)"
proof -
  have "addr ((ws_list s @ replicate (capacity s) \<lparr>addr = 0, val = 0\<rparr>) ! i) = addr (ws_list s ! i)"
    if "i < lsize s" for i
    using that assms by (simp add: index_ok_def nth_append)
  then show ?thesis using assms unfolding index_ok_def resize_fields by auto
qed

lemma resize_findable: "findable (resize s) a = findable s a"
  by (simp add: findable_def resize_fields)

lemma resize_take:
  "lsize s \<le> length (ws_list s) \<Longrightarrow> take (lsize s) (ws_list (resize s)) = take (lsize s) (ws_list s)"
  by (simp add: resize_fields)

lemma pow_pred: "2 ^ (32 - sh) \<le> n \<Longrightarrow> 2 ^ (32 - (sh - 1)) \<le> 2 * (n::nat)"
proof -
  assume a: "2 ^ (32 - sh) \<le> n"
  have "32 - (sh - 1) \<le> Suc (32 - sh)" by simp
  then have "(2::nat) ^ (32 - (sh - 1)) \<le> 2 ^ Suc (32 - sh)" by (rule power_increasing) simp
  then show ?thesis using a by simp
qed

lemma rebuild_fields:
  assumes "index_ok s" "lsize s \<le> 2 * ilength s"
  shows "ws_list (rebuild s) = ws_list s" "lsize (rebuild s) = lsize s"
    "capacity (rebuild s) = capacity s" "ilength (rebuild s) = 2 * ilength s"
    "shift (rebuild s) = shift s - 1" "ws_version (rebuild s) = 1"
proof -
  have "2 ^ (32 - shift s) \<le> ilength s" using assms(1) by (simp add: index_ok_def)
  from rebuilding_rebuild[OF assms(2) this]
  show "ws_list (rebuild s) = ws_list s" "lsize (rebuild s) = lsize s"
    "capacity (rebuild s) = capacity s" "ilength (rebuild s) = 2 * ilength s"
    "shift (rebuild s) = shift s - 1" "ws_version (rebuild s) = 1"
    by (simp_all add: rebuilding_def)
qed

lemma rebuild_index_ok:
  assumes "index_ok s" "lsize s \<le> 2 * ilength s"
  shows "index_ok (rebuild s)"
proof -
  have sh: "2 ^ (32 - shift s) \<le> ilength s" using assms(1) by (simp add: index_ok_def)
  have "shift s \<le> 32" using assms(1) by (simp add: index_ok_def)
  then have sh': "shift s - 1 \<le> 32" by simp
  from rebuilding_rebuild[OF assms(2) sh] pow_pred[OF sh] assms(1) sh'
  show ?thesis by (simp add: rebuilding_def index_ok_def)
qed

lemma rebuild_findable:
  assumes "index_ok s" "lsize s \<le> 2 * ilength s" "i < lsize s"
  shows "findable (rebuild s) (addr (ws_list s ! i))"
proof -
  have sh: "2 ^ (32 - shift s) \<le> ilength s" using assms(1) by (simp add: index_ok_def)
  from rebuilding_rebuild[OF assms(2) sh] assms(3)
  show ?thesis by (simp add: rebuilding_def)
qed

lemma word_dec: "(x::64 word) \<noteq> 0 \<Longrightarrow> x - 1 \<le> x \<and> x - 1 \<noteq> x"
  by (simp add: word_le_sub1 word_sub_le_iff)

lemma word_inc: "(x::64 word) + 1 \<noteq> 0 \<Longrightarrow> e \<le> x \<Longrightarrow> e \<le> x + 1 \<and> e \<noteq> x + 1"
  by (metis add_neg_numeral_special(8) inc_less_eq_self_iff_eq nle_le word_le_plus_either)

lemma load_step: "l * 3 < il + 3 \<Longrightarrow> 2 \<le> il \<Longrightarrow> l * 3 < 2 * (il::nat)"
  by presburger

lemma wf_load: "wf s \<Longrightarrow> lsize s < ilength s"
  by (simp add: wf_def)

lemma grown_props:
  assumes ok: "index_ok t" and len: "length (ws_list t) = capacity t"
    and sz: "0 < lsize t" "lsize t \<le> capacity t" and load: "lsize t * 3 < ilength t + 3"
  shows "wf (grown t)" "lsize (grown t) = lsize t"
    "take (lsize t) (ws_list (grown t)) = take (lsize t) (ws_list t)"
    "findable t a \<Longrightarrow> findable (grown t) a"
proof -
  define u where "u = (if lsize t = capacity t then resize t else t)"
  have u_ok: "index_ok u" using ok resize_index_ok by (simp add: u_def)
  have u_f: "lsize u = lsize t" "ilength u = ilength t" "length (ws_list u) = capacity u"
    "lsize u < capacity u"
    using len sz by (auto simp: u_def resize_fields)
  have u_take: "take (lsize t) (ws_list u) = take (lsize t) (ws_list t)"
    using len sz by (simp add: u_def resize_fields)
  have u_find: "findable u a = findable t a" by (simp add: u_def resize_findable)
  have g: "grown t = (if ilength u \<le> lsize u * 3 then rebuild u else u)"
    by (simp add: grown_def u_def Let_def)
  have il2: "2 \<le> ilength t" using ok by (simp add: index_ok_def)
  have l2: "lsize u * 3 < 2 * ilength u" using load_step[OF load il2] u_f by simp
  then have l2': "lsize u \<le> 2 * ilength u" by simp
  note rf = rebuild_fields[OF u_ok l2']
  show "wf (grown t)"
  proof (cases "ilength u \<le> lsize u * 3")
    case True
    then show ?thesis
      using g rebuild_index_ok[OF u_ok l2'] rf u_f l2 by (simp add: wf_def)
  next
    case False
    then show ?thesis using g u_ok u_f by (simp add: wf_def)
  qed
  show "lsize (grown t) = lsize t" using g rf u_f by simp
  show "take (lsize t) (ws_list (grown t)) = take (lsize t) (ws_list t)"
    using g rf u_take by simp
  show "findable (grown t) a" if f: "findable t a"
  proof (cases "ilength u \<le> lsize u * 3")
    case True
    from f have "findable u a" using u_find by simp
    from findable_slot[OF u_ok this] obtain i where "i < lsize u" "addr (ws_list u ! i) = a"
      by blast
    with rebuild_findable[OF u_ok l2', of i] show ?thesis using g True by simp
  next
    case False
    then show ?thesis using g f u_find by simp
  qed
qed

lemma insert_miss_props:
  assumes wf: "wf s"
    and miss: "probe (ws_index s) (ilength s) (ws_version s) (addr log) (hash (addr log) (shift s)) = Some (False, q)"
  shows "insert_ws s log = Some (False, grown (appended s log q))"
    "wf (grown (appended s log q))"
    "lsize (grown (appended s log q)) = lsize s + 1"
    "take (lsize s + 1) (ws_list (grown (appended s log q))) = take (lsize s) (ws_list s) @ [log]"
    "findable (grown (appended s log q)) (addr log)"
    "findable s a \<Longrightarrow> findable (grown (appended s log q)) a"
proof -
  let ?t = "appended s log q"
  from wf have ok: "index_ok s" and len: "length (ws_list s) = capacity s"
    and sz: "lsize s < capacity s" and load: "lsize s * 3 < ilength s"
    by (simp_all add: wf_def)
  have szl: "lsize s < length (ws_list s)" using len sz by simp
  from probe_SomeD[OF miss] have q: "q < ilength s" "version (ws_index s ! q) \<noteq> ws_version s"
    using ok by (simp_all add: index_ok_def)
  have t_ok: "index_ok ?t" using appended_index_ok[OF ok szl q] .
  have t1: "length (ws_list ?t) = capacity ?t" "0 < lsize ?t" "lsize ?t \<le> capacity ?t"
    "lsize ?t * 3 < ilength ?t + 3"
    using len sz load by (simp_all add: appended_fields)
  note gp = grown_props[OF t_ok t1]
  show "insert_ws s log = Some (False, grown ?t)" using insert_ws_miss[OF miss szl] .
  show "wf (grown ?t)" using gp(1) .
  show "lsize (grown ?t) = lsize s + 1" using gp(2) by (simp add: appended_fields)
  have "take (lsize s + 1) (ws_list ?t) = take (lsize s) (ws_list s) @ [log]"
    using szl by (simp add: appended_fields take_Suc_conv_app_nth)
  then show "take (lsize s + 1) (ws_list (grown ?t)) = take (lsize s) (ws_list s) @ [log]"
    using gp(3) by (simp add: appended_fields)
  have free: "lsize s < ilength s" using load by simp
  show "findable (grown ?t) (addr log)"
    using gp(4)[OF appended_findable_new[OF ok free miss]] .
  show "findable (grown ?t) a" if "findable s a"
    using gp(4)[OF appended_findable_old[OF ok q that]] .
qed

lemma update_addr: "addr (update e log) = addr e" "val (update e log) = val log"
  by (simp_all add: update_def)

lemma insert_hit_props:
  assumes wf: "wf s"
    and hit: "probe (ws_index s) (ilength s) (ws_version s) (addr log) (hash (addr log) (shift s)) = Some (True, q)"
  defines "i \<equiv> index (ws_index s ! q)"
  defines "s' \<equiv> s\<lparr>ws_list := (ws_list s)[i := update (ws_list s ! i) log]\<rparr>"
  shows "insert_ws s log = Some (True, s')" "wf s'" "i < lsize s" "addr (ws_list s ! i) = addr log"
    "probe (ws_index s') (ilength s') (ws_version s') (addr log) (hash (addr log) (shift s')) = Some (True, q)"
    "find_ws s' \<lparr>addr = addr log, val = x\<rparr> = Some (True, \<lparr>addr = addr log, val = val log\<rparr>)"
    "map addr (ws_list s') = map addr (ws_list s)"
proof -
  from wf have ok: "index_ok s" and len: "length (ws_list s) = capacity s"
    and sz: "lsize s < capacity s" and load: "lsize s * 3 < ilength s"
    by (simp_all add: wf_def)
  from probe_SomeD[OF hit] have q: "q < ilength s" "version (ws_index s ! q) = ws_version s"
    "address (ws_index s ! q) = addr log"
    using ok by (simp_all add: index_ok_def)
  from index_ok_slot[OF ok q(1,2)] have i: "i < lsize s" "addr (ws_list s ! i) = addr log"
    using q(3) by (simp_all add: i_def)
  show "i < lsize s" "addr (ws_list s ! i) = addr log" using i by simp_all
  have il: "i < length (ws_list s)" using i(1) len sz by simp
  show "insert_ws s log = Some (True, s')"
    using insert_ws_hit[OF hit] il by (simp add: s'_def i_def)
  have addr_same: "addr ((ws_list s)[i := update (ws_list s ! i) log] ! j) = addr (ws_list s ! j)" for j
    by (cases "j = i") (simp_all add: il update_addr)
  show "wf s'" using wf unfolding wf_def index_ok_def s'_def by (simp add: addr_same)
  show p': "probe (ws_index s') (ilength s') (ws_version s') (addr log) (hash (addr log) (shift s')) = Some (True, q)"
    using hit by (simp add: s'_def)
  show "find_ws s' \<lparr>addr = addr log, val = x\<rparr> = Some (True, \<lparr>addr = addr log, val = val log\<rparr>)"
    using hit il by (simp add: find_ws_def s'_def i_def[symmetric] update_addr)
  show "map addr (ws_list s') = map addr (ws_list s)"
    by (rule nth_equalityI) (simp_all add: s'_def addr_same)
qed

lemma find_ws_miss:
  "probe (ws_index s) (ilength s) (ws_version s) (addr log) (hash (addr log) (shift s)) = Some (False, q)
   \<Longrightarrow> find_ws s log = Some (False, log)"
  by (simp add: find_ws_def)

lemma find_ws_hit:
  "probe (ws_index s) (ilength s) (ws_version s) (addr log) (hash (addr log) (shift s)) = Some (True, q)
   \<Longrightarrow> index (ws_index s ! q) < length (ws_list s)
   \<Longrightarrow> find_ws s log = Some (True, log\<lparr>val := val (ws_list s ! index (ws_index s ! q))\<rparr>)"
  by (simp add: find_ws_def)

lemma remove_ws_eq:
  assumes ok: "index_ok s" and free: "lsize s < ilength s"
  shows "remove_ws s log =
     (case probe (ws_index s) (ilength s) (ws_version s) (addr log) (hash (addr log) (shift s)) of
        None \<Rightarrow> None
      | Some (found, q) \<Rightarrow>
          if found
          then Some (s\<lparr>ws_index := (ws_index s)
                 [q := (ws_index s ! q)\<lparr>version := version (ws_index s ! q) - 1\<rparr>]\<rparr>)
          else Some s)"
proof -
  have n: "ilength s = length (ws_index s)" using ok by (simp add: index_ok_def)
  show ?thesis
    unfolding remove_ws_def
      remove_loop_probe[OF n hash_range[OF ok] index_ok_free[OF ok free]]
    by (simp split: option.splits prod.splits)
qed

lemma remove_slot_wf:
  assumes wf: "wf s" and q: "q < ilength s" "version (ws_index s ! q) = ws_version s"
  shows "wf (s\<lparr>ws_index := (ws_index s)[q := (ws_index s ! q)\<lparr>version := ws_version s - 1\<rparr>]\<rparr>)"
proof -
  let ?e = "(ws_index s ! q)\<lparr>version := ws_version s - 1\<rparr>"
  from wf have ok: "index_ok s" by (simp add: wf_def)
  then have v0: "ws_version s \<noteq> 0"
    and slots: "\<forall>e \<in> set (ws_index s). version e \<le> ws_version s \<and>
        (version e = ws_version s \<longrightarrow>
           index e < lsize s \<and> addr (ws_list s ! index e) = address e)"
    and cnt: "length (filter (\<lambda>e. version e = ws_version s) (ws_index s)) \<le> lsize s"
    by (simp_all add: index_ok_def)
  have e: "version ?e \<le> ws_version s" "version ?e \<noteq> ws_version s"
    using word_dec[OF v0] by simp_all
  have slots': "\<forall>e \<in> set ((ws_index s)[q := ?e]). version e \<le> ws_version s \<and>
        (version e = ws_version s \<longrightarrow>
           index e < lsize s \<and> addr (ws_list s ! index e) = address e)"
  proof
    fix x assume "x \<in> set ((ws_index s)[q := ?e])"
    then have "x = ?e \<or> x \<in> set (ws_index s)"
      using set_update_subset_insert[of "ws_index s" q ?e] by auto
    then show "version x \<le> ws_version s \<and>
        (version x = ws_version s \<longrightarrow>
           index x < lsize s \<and> addr (ws_list s ! index x) = address x)"
      using slots e by auto
  qed
  have cnt': "length (filter (\<lambda>e. version e = ws_version s) ((ws_index s)[q := ?e])) \<le> lsize s"
    using count_upd_le[of "\<lambda>e. version e = ws_version s" ?e "ws_index s" q] e(2) cnt by simp
  show ?thesis using wf slots' cnt' by (simp add: wf_def index_ok_def)
qed

lemma not_live_not_findable: "\<not> live_binding s a \<Longrightarrow> \<not> findable s a"
  using findable_live_binding by blast

lemma reset_fields:
  "lsize (reset s) = 0" "ws_list (reset s) = ws_list s" "capacity (reset s) = capacity s"
  "shift (reset s) = shift s" "ilength (reset s) = ilength s"
  by (simp_all add: reset_def reset_internal_def Let_def)

lemma reset_no_overflow:
  "ws_version s + 1 \<noteq> 0 \<Longrightarrow> reset s = s\<lparr>lsize := 0, ws_version := ws_version s + 1\<rparr>"
  by (simp add: reset_def Let_def)

lemma reset_overflow:
  "ws_version s + 1 = 0 \<Longrightarrow>
     reset s = reset_internal (s\<lparr>lsize := 0, ws_version := 0\<rparr>)"
  by (simp add: reset_def Let_def)

lemma reset_no_live:
  assumes "wf s" "e \<in> set (ws_index (reset s))"
  shows "version e \<le> ws_version (reset s) \<and> version e \<noteq> ws_version (reset s)"
proof (cases "ws_version s + 1 = 0")
  case True
  then show ?thesis using assms(2)
    by (auto simp: reset_overflow reset_internal_def index_t0_def)
next
  case False
  from assms have "version e \<le> ws_version s"
    using False by (simp add: reset_no_overflow wf_def index_ok_def)
  from word_inc[OF False this] show ?thesis using False by (simp add: reset_no_overflow)
qed

lemma reset_wf:
  assumes "wf s"
  shows "wf (reset s)"
proof -
  have nl: "\<forall>e \<in> set (ws_index (reset s)).
     version e \<le> ws_version (reset s) \<and> version e \<noteq> ws_version (reset s)"
    using reset_no_live[OF assms] by blast
  then have "filter (\<lambda>e. version e = ws_version (reset s)) (ws_index (reset s)) = []"
    by (simp add: filter_empty_conv)
  moreover have "length (ws_index (reset s)) = ilength s" "ws_version (reset s) \<noteq> 0"
    using assms
    by (cases "ws_version s + 1 = 0";
        simp add: reset_no_overflow reset_overflow reset_internal_def wf_def index_ok_def)+
  ultimately show ?thesis
    using assms nl unfolding wf_def index_ok_def reset_fields by auto
qed

lemma reset_not_live: "wf s \<Longrightarrow> \<not> live_binding (reset s) a"
  using reset_no_live unfolding live_binding_def by blast


lemma writeback_loop_other:
  "a \<notin> addr ` set es \<Longrightarrow> writeback_loop es m a = m a"
  by (induction es arbitrary: m) (simp_all add: entry_writeback_def)

lemma writeback_loop_distinct:
  "distinct (map addr es) \<Longrightarrow> e \<in> set es \<Longrightarrow> writeback_loop es m (addr e) = val e"
proof (induction es arbitrary: m)
  case Nil
  then show ?case by simp
next
  case (Cons x xs)
  show ?case
  proof (cases "e = x")
    case True
    then have "addr e \<notin> addr ` set xs" using Cons.prems(1) by simp
    then show ?thesis using True by (simp add: writeback_loop_other entry_writeback_def)
  next
    case False
    then show ?thesis using Cons by simp
  qed
qed

lemma validate_loop_all:
  "validate_loop es m \<longleftrightarrow> (\<forall>e \<in> set es. m (addr e) = val e)"
  by (induction es) (simp_all add: entry_validate_def)

lemma entries_nth: "index_ok s \<Longrightarrow> i < lsize s \<Longrightarrow> entries s ! i = ws_list s ! i"
  by (simp add: entries_def)

lemma entries_length: "index_ok s \<Longrightarrow> length (entries s) = lsize s"
  by (simp add: entries_def index_ok_def)

lemma findable_entry:
  assumes "index_ok s" "findable s a"
  shows "a \<in> addr ` set (entries s)"
proof -
  from findable_slot[OF assms] obtain i where i: "i < lsize s" "addr (ws_list s ! i) = a" by blast
  then have "entries s ! i \<in> set (entries s)" using entries_length[OF assms(1)] by simp
  then show ?thesis using i entries_nth[OF assms(1) i(1)] by force
qed

lemma live_binding_in_entries:
  assumes "index_ok s" "live_binding s a"
  shows "a \<in> addr ` set (entries s)"
proof -
  from live_binding_entry[OF assms] obtain i where i: "i < lsize s" "addr (ws_list s ! i) = a" by blast
  then have "entries s ! i \<in> set (entries s)" using entries_length[OF assms(1)] by simp
  then show ?thesis using i entries_nth[OF assms(1) i(1)] by force
qed

lemma coalesced_live_iff:
  assumes "coalesced s"
  shows "live_binding s a \<longleftrightarrow> a \<in> addr ` set (entries s)"
proof
  assume "live_binding s a"
  then show "a \<in> addr ` set (entries s)"
    using live_binding_in_entries assms by (simp add: coalesced_def wf_def)
next
  assume "a \<in> addr ` set (entries s)"
  then have "findable s a" using assms by (auto simp: coalesced_def)
  then show "live_binding s a" by (rule findable_live_binding)
qed

lemma coalesced_size:
  assumes "coalesced s"
  shows "size_ws s = card (addr ` set (entries s))"
proof -
  have "card (addr ` set (entries s)) = length (map addr (entries s))"
    using assms distinct_card[of "map addr (entries s)"] by (simp add: coalesced_def)
  then show ?thesis using assms entries_length[of s] by (simp add: coalesced_def wf_def size_ws_def)
qed

lemma coalesced_reset:
  assumes "wf s"
  shows "coalesced (reset s)" "entries (reset s) = []"
  using reset_wf[OF assms] by (simp_all add: coalesced_def entries_def reset_fields)

lemma coalesced_insert:
  assumes c: "coalesced s"
  shows "\<exists>b s'. insert_ws s \<lparr>addr = a, val = v\<rparr> = Some (b, s') \<and> coalesced s' \<and>
           addr ` set (entries s') = insert a (addr ` set (entries s))"
proof -
  let ?log = "\<lparr>addr = a, val = v\<rparr>"
  from c have wf: "wf s" and ok: "index_ok s" and dist: "distinct (map addr (entries s))"
    and fnd: "\<forall>e \<in> set (entries s). findable s (addr e)"
    by (simp_all add: coalesced_def wf_def)
  from probe_defined[OF ok wf_load[OF wf], of a] obtain b q where
    pr: "probe (ws_index s) (ilength s) (ws_version s) (addr ?log) (hash (addr ?log) (shift s)) = Some (b, q)"
    by auto
  show ?thesis
  proof (cases b)
    case True
    then have bT: "b = True" by simp
    let ?i = "index (ws_index s ! q)"
    let ?s' = "s\<lparr>ws_list := (ws_list s)[?i := update (ws_list s ! ?i) ?log]\<rparr>"
    note hp = insert_hit_props[OF wf pr[unfolded bT]]
    have m: "map addr (entries ?s') = map addr (entries s)"
      using hp(7) by (simp add: entries_def take_map[symmetric])
    have f: "findable ?s' x = findable s x" for x by (simp add: findable_def)
    have "a \<in> addr ` set (entries s)"
      using findable_entry[OF ok, of a] pr True by (simp add: findable_iff)
    moreover have "addr ` set (entries ?s') = addr ` set (entries s)"
      using arg_cong[OF m, of set] by simp
    moreover have "coalesced ?s'"
    proof -
      have "\<forall>x \<in> addr ` set (entries ?s'). findable ?s' x"
        using fnd f \<open>addr ` set (entries ?s') = addr ` set (entries s)\<close> by auto
      then show ?thesis using hp(2) dist m by (simp add: coalesced_def)
    qed
    ultimately show ?thesis using hp(1) by auto
  next
    case False
    then have bF: "b = False" by simp
    let ?s' = "grown (appended s ?log q)"
    note mp = insert_miss_props[OF wf pr[unfolded bF]]
    have ok': "index_ok ?s'" using mp(2) by (simp add: wf_def)
    have e': "entries ?s' = entries s @ [?log]"
      using mp(3,4) by (simp add: entries_def)
    have notin: "a \<notin> addr ` set (entries s)"
    proof
      assume "a \<in> addr ` set (entries s)"
      then have "findable s a" using fnd by auto
      then show False using pr False by (simp add: findable_iff)
    qed
    have "coalesced ?s'"
      unfolding coalesced_def e' using mp(2) dist notin fnd mp(5) mp(6) by auto
    moreover have "addr ` set (entries ?s') = insert a (addr ` set (entries s))"
      unfolding e' by simp
    ultimately show ?thesis using mp(1) by auto
  qed
qed

lemma find_ws_defined:
  assumes "wf s"
  shows "\<exists>r. find_ws s log = Some r"
proof -
  from assms have ok: "index_ok s" and len: "length (ws_list s) = capacity s"
    and sz: "lsize s < capacity s" by (simp_all add: wf_def)
  from probe_defined[OF ok wf_load[OF assms], of "addr log"] obtain b q where
    pr: "probe (ws_index s) (ilength s) (ws_version s) (addr log) (hash (addr log) (shift s)) = Some (b, q)"
    by auto
  show ?thesis
  proof (cases b)
    case True
    then have bT: "b = True" by simp
    from probe_SomeD[OF pr] True have "q < ilength s" "version (ws_index s ! q) = ws_version s"
      using ok by (simp_all add: index_ok_def)
    from index_ok_slot[OF ok this] have "index (ws_index s ! q) < length (ws_list s)"
      using len sz by simp
    from find_ws_hit[OF pr[unfolded bT] this] show ?thesis by blast
  next
    case False
    then have bF: "b = False" by simp
    from find_ws_miss[OF pr[unfolded bF]] show ?thesis by blast
  qed
qed

lemma remove_ws_defined:
  assumes "wf s"
  shows "\<exists>s'. remove_ws s log = Some s' \<and> wf s' \<and>
     (s' = s \<or> (\<exists>q<ilength s. version (ws_index s ! q) = ws_version s \<and>
         address (ws_index s ! q) = addr log \<and>
         s' = s\<lparr>ws_index := (ws_index s)[q := (ws_index s ! q)\<lparr>version := ws_version s - 1\<rparr>]\<rparr>)) \<and>
     (\<not> findable s (addr log) \<longrightarrow> s' = s) \<and> \<not> findable s' (addr log)"
proof -
  from assms have ok: "index_ok s" by (simp add: wf_def)
  have n: "ilength s = length (ws_index s)" using ok by (simp add: index_ok_def)
  note h = hash_range[OF ok, of "addr log"]
  from probe_defined[OF ok wf_load[OF assms], of "addr log"] obtain b q where
    pr: "probe (ws_index s) (ilength s) (ws_version s) (addr log) (hash (addr log) (shift s)) = Some (b, q)"
    by auto
  note eq = remove_ws_eq[OF ok wf_load[OF assms], of log]
  show ?thesis
  proof (cases b)
    case True
    then have bT: "b = True" by simp
    let ?idx' = "(ws_index s)[q := (ws_index s ! q)\<lparr>version := ws_version s - 1\<rparr>]"
    let ?s' = "s\<lparr>ws_index := ?idx'\<rparr>"
    from probe_SomeD[OF pr] True have q: "q < ilength s" "version (ws_index s ! q) = ws_version s"
      "address (ws_index s ! q) = addr log"
      using ok by (simp_all add: index_ok_def)
    have r: "remove_ws s log = Some ?s'" using eq pr True q by simp
    have wf': "wf ?s'" using remove_slot_wf[OF assms q(1,2)] .
    have nf: "\<not> findable ?s' (addr log)"
    proof -
      from probe_hit_chain[OF n h index_ok_free[OF ok wf_load[OF assms]] pr[unfolded bT]]
      obtain k where k: "q = (hash (addr log) (shift s) + k) mod ilength s"
        "\<forall>j\<le>k. version (ws_index s ! ((hash (addr log) (shift s) + j) mod ilength s)) = ws_version s"
        by blast
      from probe_exit[OF n h index_ok_free[OF ok wf_load[OF assms]], of "addr log"]
      obtain k' where k': 
        "\<forall>j<k'. version (ws_index s ! ((hash (addr log) (shift s) + j) mod ilength s)) = ws_version s
            \<and> address (ws_index s ! ((hash (addr log) (shift s) + j) mod ilength s)) \<noteq> addr log"
        "probe (ws_index s) (ilength s) (ws_version s) (addr log) (hash (addr log) (shift s))
           = Some (version (ws_index s ! ((hash (addr log) (shift s) + k') mod ilength s)) = ws_version s,
                   (hash (addr log) (shift s) + k') mod ilength s)"
        by blast
      from k'(2) pr have qk: "q = (hash (addr log) (shift s) + k') mod ilength s" by simp
      have v0: "ws_version s \<noteq> 0" using ok by (simp add: index_ok_def)
      have n': "ilength s = length ?idx'" using n by simp
      have same: "?idx' ! ((hash (addr log) (shift s) + j) mod ilength s)
                  = ws_index s ! ((hash (addr log) (shift s) + j) mod ilength s)" if "j < k'" for j
      proof -
        have "address (ws_index s ! ((hash (addr log) (shift s) + j) mod ilength s)) \<noteq> addr log"
          using k'(1) that by simp
        then have "(hash (addr log) (shift s) + j) mod ilength s \<noteq> q" using q(3) by auto
        then show ?thesis by simp
      qed
      have before: "\<forall>j<k'. version (?idx' ! ((hash (addr log) (shift s) + j) mod ilength s)) = ws_version s
            \<and> address (?idx' ! ((hash (addr log) (shift s) + j) mod ilength s)) \<noteq> addr log"
        using k'(1) same by simp
      have stop: "version (?idx' ! ((hash (addr log) (shift s) + k') mod ilength s)) \<noteq> ws_version s
            \<or> address (?idx' ! ((hash (addr log) (shift s) + k') mod ilength s)) = addr log"
        using qk q(1) n word_dec[OF v0] by simp
      from probe_stop[OF n' h before stop]
      have "probe ?idx' (ilength s) (ws_version s) (addr log) (hash (addr log) (shift s))
              = Some (False, q)"
        using qk q(1) n word_dec[OF v0] by simp
      then show ?thesis by (simp add: findable_iff)
    qed
    show ?thesis using r wf' q nf pr True by (auto simp: findable_iff)
  next
    case False
    then have "remove_ws s log = Some s" using eq pr by simp
    moreover have "\<not> findable s (addr log)" using pr False by (simp add: findable_iff)
    ultimately show ?thesis using assms by simp
  qed
qed

lemma grown_ilength:
  assumes ok: "index_ok t" and load: "lsize t * 3 < ilength t + 3"
  shows "ilength (grown t) = (if ilength t \<le> lsize t * 3 then 2 * ilength t else ilength t)"
proof -
  define u where "u = (if lsize t = capacity t then resize t else t)"
  have u_ok: "index_ok u" using ok resize_index_ok by (simp add: u_def)
  have u_f: "lsize u = lsize t" "ilength u = ilength t" by (simp_all add: u_def resize_fields)
  have g: "grown t = (if ilength u \<le> lsize u * 3 then rebuild u else u)"
    by (simp add: grown_def u_def Let_def)
  have il2: "2 \<le> ilength t" using ok by (simp add: index_ok_def)
  have "lsize u * 3 < 2 * ilength u" using load_step[OF load il2] u_f by simp
  then have "lsize u \<le> 2 * ilength u" by simp
  from rebuild_fields(4)[OF u_ok this] show ?thesis using g u_f by simp
qed



lemma coalesced_run:
  assumes "coalesced s" "remove_free ops"
  shows "\<exists>s'. run s ops = Some s' \<and> coalesced s' \<and>
           addr ` set (entries s') = addr ` set (entries s) \<union> inserted ops"
  using assms
proof (induction ops arbitrary: s)
  case Nil
  then show ?case by simp
next
  case (Cons x xs)
  show ?case
  proof (cases x)
    case (Insert a v)
    from coalesced_insert[OF Cons.prems(1), of a v] obtain b s1 where
      s1: "insert_ws s \<lparr>addr = a, val = v\<rparr> = Some (b, s1)" "coalesced s1"
        "addr ` set (entries s1) = insert a (addr ` set (entries s))"
      by blast
    from Cons.prems(2) Insert have "remove_free xs" by simp
    from Cons.IH[OF s1(2) this] obtain s' where
      "run s1 xs = Some s'" "coalesced s'"
      "addr ` set (entries s') = addr ` set (entries s1) \<union> inserted xs"
      by blast
    then show ?thesis using s1 Insert by auto
  next
    case (Find a)
    from Cons.prems(1) have "wf s" by (simp add: coalesced_def)
    from find_ws_defined[OF this, of "\<lparr>addr = a, val = 0\<rparr>"] obtain r where
      r: "find_ws s \<lparr>addr = a, val = 0\<rparr> = Some r" by blast
    from Cons.prems(2) Find have "remove_free xs" by simp
    from Cons.IH[OF Cons.prems(1) this] obtain s' where
      "run s xs = Some s'" "coalesced s'"
      "addr ` set (entries s') = addr ` set (entries s) \<union> inserted xs"
      by blast
    then show ?thesis using r Find by auto
  next
    case (Remove a)
    then show ?thesis using Cons.prems(2) by simp
  qed
qed

text \<open>Every operation returns on a well-formed write set and keeps it well-formed.\<close>

lemma insert_ws_wf:
  assumes "wf s"
  shows "\<exists>b s'. insert_ws s log = Some (b, s') \<and> wf s'"
proof -
  from assms have ok: "index_ok s" by (simp add: wf_def)
  from probe_defined[OF ok wf_load[OF assms], of "addr log"] obtain b q where
    pr: "probe (ws_index s) (ilength s) (ws_version s) (addr log) (hash (addr log) (shift s)) = Some (b, q)"
    by auto
  show ?thesis
  proof (cases b)
    case True
    then have bT: "b = True" by simp
    from insert_hit_props(1,2)[OF assms pr[unfolded bT]] show ?thesis by blast
  next
    case False
    then have bF: "b = False" by simp
    from insert_miss_props(1,2)[OF assms pr[unfolded bF]] show ?thesis by blast
  qed
qed

lemma run_wf:
  assumes "wf s"
  shows "\<exists>s'. run s ops = Some s' \<and> wf s'"
  using assms
proof (induction ops arbitrary: s)
  case Nil
  then show ?case by simp
next
  case (Cons x xs)
  have "\<exists>s1. apply_op s x = Some s1 \<and> wf s1"
  proof (cases x)
    case (Insert a v)
    then show ?thesis using insert_ws_wf[OF Cons.prems, of "\<lparr>addr = a, val = v\<rparr>"] by auto
  next
    case (Find a)
    then show ?thesis using find_ws_defined[OF Cons.prems, of "\<lparr>addr = a, val = 0\<rparr>"] Cons.prems
      by auto
  next
    case (Remove a)
    then show ?thesis using remove_ws_defined[OF Cons.prems, of "\<lparr>addr = a, val = 0\<rparr>"] by auto
  qed
  then obtain s1 where "apply_op s x = Some s1" "wf s1" by blast
  then show ?case using Cons.IH[of s1] by simp
qed

section \<open>The claims\<close>

subsection \<open>C1\<close>

text \<open>
  C1. On a well-formed write set in which no live slot holds the address \<open>A\<close>,
  \<^verbatim>\<open>insert(A, v1)\<close> returns false and creates a new binding (the size grows by one and
  a live slot holds \<open>A\<close>); the next \<^verbatim>\<open>insert(A, v2)\<close> returns true, \<^verbatim>\<open>find(A)\<close> then
  reports \<open>v2\<close>, and the size is the same as after the first insert.
\<close>

theorem insert_twice_coalesces:
  assumes "wf s" and "\<not> live_binding s A"
  shows "\<exists>s1 s2. insert_ws s \<lparr>addr = A, val = v1\<rparr> = Some (False, s1) \<and>
           size_ws s1 = size_ws s + 1 \<and> live_binding s1 A \<and>
           insert_ws s1 \<lparr>addr = A, val = v2\<rparr> = Some (True, s2) \<and>
           find_ws s2 \<lparr>addr = A, val = x\<rparr> = Some (True, \<lparr>addr = A, val = v2\<rparr>) \<and>
           size_ws s2 = size_ws s1"
proof -
  let ?l1 = "\<lparr>addr = A, val = v1\<rparr>" and ?l2 = "\<lparr>addr = A, val = v2\<rparr>"
  from assms(1) have ok: "index_ok s" by (simp add: wf_def)
  from probe_defined[OF ok wf_load[OF assms(1)], of A] obtain b q where
    pr: "probe (ws_index s) (ilength s) (ws_version s) (addr ?l1) (hash (addr ?l1) (shift s)) = Some (b, q)"
    by auto
  have "\<not> findable s A" using assms(2) not_live_not_findable by blast
  then have bF: "b = False" using pr by (cases b) (simp_all add: findable_iff)
  let ?s1 = "grown (appended s ?l1 q)"
  note mp = insert_miss_props[OF assms(1) pr[unfolded bF]]
  from mp(5) obtain q' where
    pr1: "probe (ws_index ?s1) (ilength ?s1) (ws_version ?s1) (addr ?l2) (hash (addr ?l2) (shift ?s1)) = Some (True, q')"
    by (auto simp: findable_iff)
  note hp = insert_hit_props[OF mp(2) pr1]
  have "live_binding ?s1 A" using findable_live_binding[OF mp(5)] by simp
  then show ?thesis
    using mp(1,3) hp(1,6) by (auto simp: size_ws_def)
qed

theorem insert_twice_coalesces_witness:
  "wf ws8_empty \<and> \<not> live_binding ws8_empty 8 \<and>
   (\<exists>s1 s2. insert_ws ws8_empty \<lparr>addr = 8, val = 7\<rparr> = Some (False, s1) \<and>
           size_ws s1 = size_ws ws8_empty + 1 \<and> live_binding s1 8 \<and>
           insert_ws s1 \<lparr>addr = 8, val = 9\<rparr> = Some (True, s2) \<and>
           find_ws s2 \<lparr>addr = 8, val = 0\<rparr> = Some (True, \<lparr>addr = 8, val = 9\<rparr>) \<and>
           size_ws s2 = size_ws s1)"
proof -
  have h1: "wf ws8_empty" by code_simp
  have h2: "\<not> live_binding ws8_empty 8" by code_simp
  show ?thesis using h1 h2 insert_twice_coalesces[OF h1 h2, of 7 9 0] by blast
qed

subsection \<open>C2\<close>

text \<open>
  C2, as the claim states it, fails: after \<^verbatim>\<open>reset\<close>, \<^verbatim>\<open>insert(8, 7)\<close> and \<^verbatim>\<open>remove(8)\<close>
  no slot of the index is live, so no address has a live binding, and \<^verbatim>\<open>size()\<close> is 1.
\<close>

theorem size_after_remove_counterexample:
  "run (reset ws8_empty) [Insert 8 7, Remove 8] \<noteq> None \<and>
   size_ws (the (run (reset ws8_empty) [Insert 8 7, Remove 8])) = 1 \<and>
   \<not> live_binding (the (run (reset ws8_empty) [Insert 8 7, Remove 8])) 8 \<and>
   filter (\<lambda>e. version e = ws_version (the (run (reset ws8_empty) [Insert 8 7, Remove 8])))
     (ws_index (the (run (reset ws8_empty) [Insert 8 7, Remove 8]))) = []"
  by code_simp

text \<open>
  C2, amended. At every point of a sequence of \<^verbatim>\<open>insert\<close> and \<^verbatim>\<open>find\<close> operations
  since the last reset of a well-formed write set, \<^verbatim>\<open>size()\<close> is the number of distinct
  addresses inserted since the reset, and these are the addresses with a live binding.
  \<^verbatim>\<open>remove(A)\<close> leaves \<^verbatim>\<open>size()\<close> as it is: the size still counts the entry of \<open>A\<close>.
\<close>

theorem size_counts_distinct_inserts:
  assumes "wf s0" and "remove_free ops"
  shows "\<exists>s. run (reset s0) ops = Some s \<and> size_ws s = card (inserted ops) \<and>
           (\<forall>a. live_binding s a \<longleftrightarrow> a \<in> inserted ops) \<and>
           (\<forall>a x. \<exists>s'. remove_ws s \<lparr>addr = a, val = x\<rparr> = Some s' \<and> size_ws s' = size_ws s)"
proof -
  note c0 = coalesced_reset[OF assms(1)]
  from coalesced_run[OF c0(1) assms(2)] obtain s where
    s: "run (reset s0) ops = Some s" "coalesced s"
       "addr ` set (entries s) = inserted ops"
    using c0(2) by auto
  have wf: "wf s" using s(2) by (simp add: coalesced_def)
  have "\<exists>s'. remove_ws s \<lparr>addr = a, val = x\<rparr> = Some s' \<and> size_ws s' = size_ws s" for a x
    using remove_ws_defined[OF wf, of "\<lparr>addr = a, val = x\<rparr>"] by (auto simp: size_ws_def)
  then show ?thesis
    using s(1) coalesced_size[OF s(2)] coalesced_live_iff[OF s(2)] s(3) by auto
qed

theorem size_counts_distinct_inserts_witness:
  "wf ws8_one \<and> remove_free [Insert 8 7, Insert 16 5, Find 8, Insert 8 9] \<and>
   (\<exists>s. run (reset ws8_one) [Insert 8 7, Insert 16 5, Find 8, Insert 8 9] = Some s \<and>
        size_ws s = card (inserted [Insert 8 7, Insert 16 5, Find 8, Insert 8 9]) \<and>
        (\<forall>a. live_binding s a \<longleftrightarrow> a \<in> inserted [Insert 8 7, Insert 16 5, Find 8, Insert 8 9]) \<and>
        (\<forall>a x. \<exists>s'. remove_ws s \<lparr>addr = a, val = x\<rparr> = Some s' \<and> size_ws s' = size_ws s)) \<and>
   card (inserted [Insert 8 7, Insert 16 5, Find 8, Insert 8 9]) = 2"
proof -
  have h1: "wf ws8_one" by code_simp
  have h2: "remove_free [Insert 8 7, Insert 16 5, Find 8, Insert 8 9]" by simp
  have c: "card (inserted [Insert 8 7, Insert 16 5, Find 8, Insert 8 9]) = 2"
    by (simp add: card_insert_if)
  show ?thesis using h1 h2 c size_counts_distinct_inserts[OF h1 h2] by blast
qed

subsection \<open>C3\<close>

text \<open>
  C3. When the entries in use are at pairwise distinct addresses, then after
  \<^verbatim>\<open>writeback()\<close> (there is no exclusion region in this configuration) the memory word
  at every logged address is its logged value, and \<^verbatim>\<open>validate()\<close> on that memory
  returns true.
\<close>

theorem writeback_then_validate:
  assumes "distinct (map addr (entries s))"
  shows "list_all (\<lambda>e. writeback s m (addr e) = val e) (entries s) \<and>
         validate s (writeback s m)"
proof -
  have "\<forall>e \<in> set (entries s). writeback_loop (entries s) m (addr e) = val e"
    using writeback_loop_distinct[OF assms] by blast
  then show ?thesis
    by (simp add: writeback_def validate_def validate_loop_all list_all_iff entries_def)
qed

theorem writeback_then_validate_witness:
  "distinct (map addr (entries ws8_two)) \<and>
   list_all (\<lambda>e. writeback ws8_two zero_memory (addr e) = val e) (entries ws8_two) \<and>
   validate ws8_two (writeback ws8_two zero_memory) \<and>
   writeback ws8_two zero_memory 8 = 7 \<and> writeback ws8_two zero_memory 16 = 5"
proof -
  have h: "distinct (map addr (entries ws8_two))"
    by code_simp
  have "writeback ws8_two zero_memory 8 = 7 \<and> writeback ws8_two zero_memory 16 = 5"
    by code_simp
  then show ?thesis using h writeback_then_validate[OF h, of zero_memory] by simp
qed

subsection \<open>C4\<close>

text \<open>
  C4, as the claim states it, fails: after \<^verbatim>\<open>remove(8)\<close> on the write set holding the
  single entry (8, 7) no live slot holds the address 8, and yet \<^verbatim>\<open>writeback\<close> stores 7
  at address 8 of a zeroed memory, and \<^verbatim>\<open>validate\<close> on the zeroed memory compares the
  entry and returns false.
\<close>

theorem writeback_after_remove_counterexample:
  "remove_ws ws8_one \<lparr>addr = 8, val = 0\<rparr> \<noteq> None \<and>
   \<not> live_binding (the (remove_ws ws8_one \<lparr>addr = 8, val = 0\<rparr>)) 8 \<and>
   zero_memory 8 = 0 \<and>
   writeback (the (remove_ws ws8_one \<lparr>addr = 8, val = 0\<rparr>)) zero_memory 8 = 7 \<and>
   \<not> validate (the (remove_ws ws8_one \<lparr>addr = 8, val = 0\<rparr>)) zero_memory"
  by code_simp

text \<open>
  C4, amended. \<^verbatim>\<open>writeback()\<close> stores the value of every entry of the list in use, in
  insertion order, and \<^verbatim>\<open>validate()\<close> compares every one of them, whether or not a
  live slot of the index points to the entry: \<^verbatim>\<open>remove\<close> changes neither the stores
  \<^verbatim>\<open>writeback\<close> performs nor the outcome of \<^verbatim>\<open>validate\<close>.
\<close>

theorem writeback_ignores_liveness:
  assumes "wf s"
  shows "\<exists>s'. remove_ws s log = Some s' \<and> writes s' = writes s \<and>
           writeback s' m = writeback s m \<and> validate s' m = validate s m \<and>
           writeback s m = fold (\<lambda>(a, v) m. m(a := v)) (writes s) m \<and>
           validate s m = list_all (\<lambda>(a, v). m a = v) (writes s)"
proof -
  from remove_ws_defined[OF assms, of log] obtain s' where
    r: "remove_ws s log = Some s'" and f: "ws_list s' = ws_list s" "lsize s' = lsize s"
    by auto
  have wb: "writeback_loop es m = fold (\<lambda>(a, v) m. m(a := v)) (map (\<lambda>e. (addr e, val e)) es) m"
    for es m
    by (induction es arbitrary: m) (simp_all add: entry_writeback_def)
  have vl: "validate_loop es m = list_all (\<lambda>(a, v). m a = v) (map (\<lambda>e. (addr e, val e)) es)"
    for es
    by (induction es) (simp_all add: entry_validate_def)
  show ?thesis
    using r f wb vl by (simp add: writes_def writeback_def validate_def)
qed

theorem writeback_ignores_liveness_witness:
  "wf ws8_one \<and>
   (\<exists>s'. remove_ws ws8_one \<lparr>addr = 8, val = 0\<rparr> = Some s' \<and> writes s' = writes ws8_one \<and>
           writeback s' zero_memory = writeback ws8_one zero_memory \<and>
           validate s' zero_memory = validate ws8_one zero_memory \<and>
           writeback ws8_one zero_memory
             = fold (\<lambda>(a, v) m. m(a := v)) (writes ws8_one) zero_memory \<and>
           validate ws8_one zero_memory
             = list_all (\<lambda>(a, v). zero_memory a = v) (writes ws8_one))"
proof -
  have h: "wf ws8_one" by code_simp
  show ?thesis using h writeback_ignores_liveness[OF h] by blast
qed

subsection \<open>C5\<close>

text \<open>
  C5. On a well-formed write set, after \<^verbatim>\<open>reset()\<close> the size is 0 and \<^verbatim>\<open>find\<close> reports
  not-found for every address (so for every address findable before); and unless the
  version counter overflows, \<^verbatim>\<open>reset\<close> only zeroes the size and advances the version
  counter: the index and the list are the arrays they were.
\<close>

theorem reset_clears:
  assumes "wf s"
  shows "size_ws (reset s) = 0 \<and>
         (\<forall>a x. find_ws (reset s) \<lparr>addr = a, val = x\<rparr> = Some (False, \<lparr>addr = a, val = x\<rparr>)) \<and>
         (ws_version s + 1 \<noteq> 0 \<longrightarrow>
            reset s = s\<lparr>lsize := 0, ws_version := ws_version s + 1\<rparr>)"
proof -
  have wf': "wf (reset s)" using reset_wf[OF assms] .
  then have ok: "index_ok (reset s)" by (simp add: wf_def)
  have "find_ws (reset s) \<lparr>addr = a, val = x\<rparr> = Some (False, \<lparr>addr = a, val = x\<rparr>)" for a x
  proof -
    from probe_defined[OF ok wf_load[OF wf'], of a] obtain b q where
      pr: "probe (ws_index (reset s)) (ilength (reset s)) (ws_version (reset s))
             (addr \<lparr>addr = a, val = x\<rparr>) (hash (addr \<lparr>addr = a, val = x\<rparr>) (shift (reset s)))
           = Some (b, q)"
      by auto
    have "\<not> findable (reset s) a"
      using reset_not_live[OF assms] not_live_not_findable by blast
    then have bF: "b = False" using pr by (cases b) (simp_all add: findable_iff)
    from find_ws_miss[OF pr[unfolded bF]] show ?thesis .
  qed
  then show ?thesis by (simp add: size_ws_def reset_fields reset_no_overflow)
qed

theorem reset_clears_witness:
  "wf ws8_two \<and> find_ws ws8_two \<lparr>addr = 16, val = 0\<rparr> = Some (True, \<lparr>addr = 16, val = 5\<rparr>) \<and>
   size_ws (reset ws8_two) = 0 \<and>
   find_ws (reset ws8_two) \<lparr>addr = 16, val = 0\<rparr> = Some (False, \<lparr>addr = 16, val = 0\<rparr>) \<and>
   ws_version ws8_two + 1 \<noteq> 0 \<and>
   reset ws8_two = ws8_two\<lparr>lsize := 0, ws_version := ws_version ws8_two + 1\<rparr>"
proof -
  have h: "wf ws8_two" by code_simp
  have f: "find_ws ws8_two \<lparr>addr = 16, val = 0\<rparr> = Some (True, \<lparr>addr = 16, val = 5\<rparr>)"
    by code_simp
  have v: "ws_version ws8_two + 1 \<noteq> 0" by (simp add: ws8_two_def)
  show ?thesis using h f v reset_clears[OF h] by blast
qed

subsection \<open>C6\<close>

text \<open>
  C6, as the claim states it, fails: for the key 1 and a table of 16 slots (shift 28)
  the code returns 9, and the high four bits of the full 64-bit product are 0.
\<close>

theorem hash_high_bits_counterexample:
  "hash 1 28 = 9 \<and> hash_high_bits_of_product 1 28 = 0"
  by code_simp

text \<open>
  C6, amended. The hash is taken from the low 32 bits of the 64-bit product (computed
  modulo \<open>2 ^ 64\<close>) of the key with 2654435769: it is that 32-bit word shifted right by
  \<open>shift\<close>, that is its high \<open>32 - shift\<close> bits, and so it is below \<open>2 ^ (32 - shift)\<close>.
\<close>

theorem hash_low_word:
  "hash key sh = (unat (key * 2654435769) mod 2 ^ 32) div 2 ^ sh \<and>
   hash key sh < 2 ^ (32 - sh)"
proof -
  have m: "(0xFFFFFFFF :: 64 word) = mask 32" by (simp add: mask_eq_exp_minus_1)
  have "hash key sh = (unat (key * 2654435769) mod 2 ^ 32) div 2 ^ sh"
    unfolding hash_def m take_bit_eq_mask[symmetric] unat_drop_bit_eq unsigned_take_bit_eq
    by (simp add: drop_bit_eq_div take_bit_eq_mod)
  then show ?thesis using hash_lt[of key sh] by simp
qed

subsection \<open>C7\<close>

text \<open>
  C7. On a well-formed write set (its load is below a third and its index has at
  least two slots) every \<^verbatim>\<open>insert\<close> returns, and afterwards the number of entries in
  use times 3 is again strictly below the capacity of the index, so that a slot that
  is not live exists. The capacity of the index is doubled exactly when the insert
  appended an entry and the new count times 3 reached the capacity, and is unchanged
  otherwise.
\<close>

theorem insert_keeps_load_factor:
  assumes "wf s"
  shows "\<exists>b s'. insert_ws s log = Some (b, s') \<and> lsize s' * 3 < ilength s' \<and>
           (\<exists>p<ilength s'. version (ws_index s' ! p) \<noteq> ws_version s') \<and>
           ilength s' = (if \<not> b \<and> ilength s \<le> (lsize s + 1) * 3
                         then 2 * ilength s else ilength s) \<and>
           wf s'"
proof -
  from assms have ok: "index_ok s" and len: "length (ws_list s) = capacity s"
    and sz: "lsize s < capacity s" and load: "lsize s * 3 < ilength s"
    by (simp_all add: wf_def)
  from probe_defined[OF ok wf_load[OF assms], of "addr log"] obtain b q where
    pr: "probe (ws_index s) (ilength s) (ws_version s) (addr log) (hash (addr log) (shift s)) = Some (b, q)"
    by auto
  have free: "\<exists>p<ilength t. version (ws_index t ! p) \<noteq> ws_version t" if "wf t" for t
    using that index_ok_free[of t] wf_load[OF that] by (simp add: wf_def)
  show ?thesis
  proof (cases b)
    case True
    then have bT: "b = True" by simp
    note hp = insert_hit_props[OF assms pr[unfolded bT]]
    let ?s' = "s\<lparr>ws_list := (ws_list s)[index (ws_index s ! q) :=
                  update (ws_list s ! index (ws_index s ! q)) log]\<rparr>"
    have "lsize ?s' * 3 < ilength ?s'" "ilength ?s' = ilength s" using load by simp_all
    then show ?thesis using hp(1,2) free[OF hp(2)] by auto
  next
    case False
    then have bF: "b = False" by simp
    note mp = insert_miss_props[OF assms pr[unfolded bF]]
    let ?t = "appended s log q"
    have szl: "lsize s < length (ws_list s)" using len sz by simp
    from probe_SomeD[OF pr] bF have q: "q < ilength s" "version (ws_index s ! q) \<noteq> ws_version s"
      using ok by (simp_all add: index_ok_def)
    have t_ok: "index_ok ?t" using appended_index_ok[OF ok szl q] .
    have "lsize ?t * 3 < ilength ?t + 3" using load by (simp add: appended_fields)
    from grown_ilength[OF t_ok this]
    have il: "ilength (grown ?t) = (if ilength s \<le> (lsize s + 1) * 3 then 2 * ilength s else ilength s)"
      by (simp add: appended_fields)
    have "lsize (grown ?t) * 3 < ilength (grown ?t)" using mp(2) by (simp add: wf_def)
    then show ?thesis using mp(1,2) il free[OF mp(2)] by auto
  qed
qed

theorem insert_keeps_load_factor_witness:
  "wf ws4_one \<and>
   (\<exists>b s'. insert_ws ws4_one \<lparr>addr = 16, val = 5\<rparr> = Some (b, s') \<and>
           lsize s' * 3 < ilength s' \<and>
           (\<exists>p<ilength s'. version (ws_index s' ! p) \<noteq> ws_version s') \<and>
           ilength s' = (if \<not> b \<and> ilength ws4_one \<le> (lsize ws4_one + 1) * 3
                         then 2 * ilength ws4_one else ilength ws4_one) \<and>
           wf s') \<and>
   fst (the (insert_ws ws4_one \<lparr>addr = 16, val = 5\<rparr>)) = False \<and>
   lsize (snd (the (insert_ws ws4_one \<lparr>addr = 16, val = 5\<rparr>))) = 2 \<and>
   ilength (snd (the (insert_ws ws4_one \<lparr>addr = 16, val = 5\<rparr>))) = 8"
proof -
  have h: "wf ws4_one" by code_simp
  have c: "fst (the (insert_ws ws4_one \<lparr>addr = 16, val = 5\<rparr>)) = False \<and>
   lsize (snd (the (insert_ws ws4_one \<lparr>addr = 16, val = 5\<rparr>))) = 2 \<and>
   ilength (snd (the (insert_ws ws4_one \<lparr>addr = 16, val = 5\<rparr>))) = 8"
    by code_simp
  show ?thesis using h c insert_keeps_load_factor[OF h, of "\<lparr>addr = 16, val = 5\<rparr>"] by blast
qed

subsection \<open>C8\<close>

text \<open>
  C8. \<^verbatim>\<open>reset()\<close> adds one to the version counter modulo \<open>2 ^ 64\<close>. The sum is 0
  exactly when the counter was at its last value \<open>2 ^ 64 - 1\<close>, and exactly then the
  result is that of the physical clear \<^verbatim>\<open>reset_internal()\<close>; otherwise \<^verbatim>\<open>reset\<close>
  returns with the size zeroed and the counter advanced, the index and the list being
  the arrays they were. \<^verbatim>\<open>reset\<close> has no error result, and on a well-formed write set
  its result is well-formed on either path.
\<close>

theorem reset_version_overflow:
  "unat (ws_version s + 1) = (unat (ws_version s) + 1) mod 2 ^ 64 \<and>
   (ws_version s + 1 = 0 \<longleftrightarrow> ws_version s = 0xFFFFFFFFFFFFFFFF) \<and>
   (ws_version s \<noteq> 0xFFFFFFFFFFFFFFFF \<longrightarrow>
      reset s = s\<lparr>lsize := 0, ws_version := ws_version s + 1\<rparr> \<and>
      ws_index (reset s) = ws_index s \<and> ws_list (reset s) = ws_list s) \<and>
   (ws_version s = 0xFFFFFFFFFFFFFFFF \<longrightarrow>
      reset s = reset_internal (s\<lparr>lsize := 0, ws_version := 0\<rparr>)) \<and>
   (wf s \<longrightarrow> wf (reset s))"
proof -
  have a: "unat (ws_version s + 1) = (unat (ws_version s) + 1) mod 2 ^ 64"
    by (simp add: unat_word_ariths)
  have b: "ws_version s + 1 = 0 \<longleftrightarrow> ws_version s = 0xFFFFFFFFFFFFFFFF"
  proof
    assume "ws_version s + 1 = 0"
    then have "ws_version s = - 1" by (simp add: eq_neg_iff_add_eq_0)
    then show "ws_version s = 0xFFFFFFFFFFFFFFFF" by simp
  next
    assume "ws_version s = 0xFFFFFFFFFFFFFFFF"
    then show "ws_version s + 1 = 0" by simp
  qed
  show ?thesis
    using a b reset_no_overflow[of s] reset_overflow[of s] reset_wf[of s]
    by (auto simp: reset_fields)
qed

theorem reset_version_overflow_witness:
  "ws_version ws8_last = 0xFFFFFFFFFFFFFFFF \<and> wf ws8_last \<and>
   reset ws8_last = reset_internal (ws8_last\<lparr>lsize := 0, ws_version := 0\<rparr>) \<and>
   wf (reset ws8_last) \<and> ws_version (reset ws8_last) = 1 \<and>
   ws_version ws8_one \<noteq> 0xFFFFFFFFFFFFFFFF \<and>
   reset ws8_one = ws8_one\<lparr>lsize := 0, ws_version := ws_version ws8_one + 1\<rparr> \<and>
   ws_index (reset ws8_one) = ws_index ws8_one \<and> ws_list (reset ws8_one) = ws_list ws8_one"
proof -
  have h1: "ws_version ws8_last = 0xFFFFFFFFFFFFFFFF" by (simp add: ws8_last_def)
  have h2: "wf ws8_last" by code_simp
  have h3: "ws_version ws8_one \<noteq> 0xFFFFFFFFFFFFFFFF" by (simp add: ws8_one_def)
  have h4: "ws_version (reset_internal (ws8_last\<lparr>lsize := 0, ws_version := 0\<rparr>)) = 1"
    by (simp add: reset_internal_def)
  show ?thesis
    using h1 h2 h3 h4 reset_version_overflow[of ws8_last] reset_version_overflow[of ws8_one]
    by metis
qed

subsection \<open>C9\<close>




subsection \<open>C10\<close>

text \<open>
  C10. On a well-formed write set \<^verbatim>\<open>remove(A)\<close> returns, and it leaves the list, the
  size, the current version (and the shift and the two capacities) as they are. Either
  the whole state is unchanged, or the index differs in one slot, which was live and
  held \<open>A\<close>, and whose version is now the current version minus one. When no live slot
  holds \<open>A\<close> the whole state is unchanged.
\<close>

theorem remove_frame:
  assumes "wf s"
  shows "\<exists>s'. remove_ws s log = Some s' \<and>
           ws_list s' = ws_list s \<and> lsize s' = lsize s \<and> ws_version s' = ws_version s \<and>
           capacity s' = capacity s \<and> ilength s' = ilength s \<and> shift s' = shift s \<and>
           (s' = s \<or>
            (\<exists>q<ilength s. version (ws_index s ! q) = ws_version s \<and>
               address (ws_index s ! q) = addr log \<and>
               ws_index s' = (ws_index s)[q := (ws_index s ! q)\<lparr>version := ws_version s - 1\<rparr>])) \<and>
           (\<not> live_binding s (addr log) \<longrightarrow> s' = s)"
proof -
  from remove_ws_defined[OF assms, of log] obtain s' where
    r: "remove_ws s log = Some s'"
    and c: "s' = s \<or> (\<exists>q<ilength s. version (ws_index s ! q) = ws_version s \<and>
         address (ws_index s ! q) = addr log \<and>
         s' = s\<lparr>ws_index := (ws_index s)[q := (ws_index s ! q)\<lparr>version := ws_version s - 1\<rparr>]\<rparr>)"
    and nf: "\<not> findable s (addr log) \<longrightarrow> s' = s"
    by blast
  have nl: "\<not> live_binding s (addr log) \<longrightarrow> s' = s"
    using nf not_live_not_findable by blast
  from c show ?thesis
  proof
    assume "s' = s"
    then show ?thesis using r by simp
  next
    assume "\<exists>q<ilength s. version (ws_index s ! q) = ws_version s \<and>
         address (ws_index s ! q) = addr log \<and>
         s' = s\<lparr>ws_index := (ws_index s)[q := (ws_index s ! q)\<lparr>version := ws_version s - 1\<rparr>]\<rparr>"
    then obtain q where q: "q < ilength s" "version (ws_index s ! q) = ws_version s"
      "address (ws_index s ! q) = addr log"
      "s' = s\<lparr>ws_index := (ws_index s)[q := (ws_index s ! q)\<lparr>version := ws_version s - 1\<rparr>]\<rparr>"
      by blast
    have "ws_index s' = (ws_index s)[q := (ws_index s ! q)\<lparr>version := ws_version s - 1\<rparr>]"
      using q(4) by simp
    then have "\<exists>q<ilength s. version (ws_index s ! q) = ws_version s \<and>
               address (ws_index s ! q) = addr log \<and>
               ws_index s' = (ws_index s)[q := (ws_index s ! q)\<lparr>version := ws_version s - 1\<rparr>]"
      using q(1,2,3) by blast
    moreover have "ws_list s' = ws_list s" "lsize s' = lsize s" "ws_version s' = ws_version s"
      "capacity s' = capacity s" "ilength s' = ilength s" "shift s' = shift s"
      using q(4) by simp_all
    ultimately show ?thesis using r nl by blast
  qed
qed

theorem remove_frame_witness:
  "wf ws8_two \<and> \<not> live_binding ws8_two 24 \<and>
   remove_ws ws8_two \<lparr>addr = 24, val = 0\<rparr> = Some ws8_two \<and>
   remove_ws ws8_two \<lparr>addr = 16, val = 0\<rparr> =
     Some (ws8_two\<lparr>ws_index := (ws_index ws8_two)
             [0 := \<lparr>version = 0, address = 16, index = 1\<rparr>]\<rparr>)"
proof -
  have h: "wf ws8_two" by code_simp
  have n: "\<not> live_binding ws8_two 24" by code_simp
  have r: "remove_ws ws8_two \<lparr>addr = 16, val = 0\<rparr> =
     Some (ws8_two\<lparr>ws_index := (ws_index ws8_two)
             [0 := \<lparr>version = 0, address = 16, index = 1\<rparr>]\<rparr>)"
    by code_simp
  from remove_frame[OF h, of "\<lparr>addr = 24, val = 0\<rparr>"] n
  have "remove_ws ws8_two \<lparr>addr = 24, val = 0\<rparr> = Some ws8_two" by auto
  then show ?thesis using h n r by simp
qed

end
